theory Spec2Isabelle
  imports Complex_Main
begin

section \<open>The ColombiaCheck scraper: a shallow embedding\<close>

text \<open>
  The source is one Python module, \<^verbatim>\<open>web_scrapping/colombiaChechk_scrapper.py\<close>. Its
  functions are embedded one by one, with the source's names. Python strings are
  \<^typ>\<open>string\<close> (UTF-8 bytes), Python's unbounded integers are \<^typ>\<open>int\<close>, seconds are
  \<^typ>\<open>rat\<close> (the source only ever forms \<open>0.5 * attempt\<close> and passes \<open>sleep_time\<close>
  through), a dict is a map, and the effects (HTTP requests, sleeps, files) are explicit
  state: a trace of events and a file system that are passed in and returned.
\<close>

subsection \<open>Python strings and dicts\<close>

definition startswith :: "string \<Rightarrow> string \<Rightarrow> bool" where
  \<comment> \<open>\<^verbatim>\<open>s.startswith(p)\<close>\<close>
  "startswith s p = (take (length p) s = p)"

definition endswith :: "string \<Rightarrow> string \<Rightarrow> bool" where
  \<comment> \<open>\<^verbatim>\<open>s.endswith(p)\<close>\<close>
  "endswith s p = (drop (length s - length p) s = p \<and> length p \<le> length s)"

definition lower_char :: "char \<Rightarrow> char" where
  \<comment> \<open>lower-casing of one character; bytes outside \<open>A\<close>..\<open>Z\<close> are left as they are\<close>
  "lower_char c =
     (case map_of (zip ''ABCDEFGHIJKLMNOPQRSTUVWXYZ'' ''abcdefghijklmnopqrstuvwxyz'') c of
        None \<Rightarrow> c
      | Some l \<Rightarrow> l)"

definition py_lower :: "string \<Rightarrow> string" where
  \<comment> \<open>\<^verbatim>\<open>s.lower()\<close>\<close>
  "py_lower s = map lower_char s"

definition py_or :: "string \<Rightarrow> string \<Rightarrow> string" where
  \<comment> \<open>\<^verbatim>\<open>s or d\<close> on strings: the empty string is falsy\<close>
  "py_or s d = (if s = [] then d else s)"

definition dict_get :: "('k \<rightharpoonup> 'v) \<Rightarrow> 'k \<Rightarrow> 'v \<Rightarrow> 'v" where
  \<comment> \<open>\<^verbatim>\<open>d.get(k, default)\<close>\<close>
  "dict_get d k dflt = (case d k of None \<Rightarrow> dflt | Some v \<Rightarrow> v)"

definition digit_char :: "nat \<Rightarrow> char" where
  "digit_char d = ''0123456789'' ! d"

fun str_nat :: "nat \<Rightarrow> string" where
  "str_nat n = (if n < 10 then [digit_char n] else str_nat (n div 10) @ [digit_char (n mod 10)])"

declare str_nat.simps [simp del]

definition py_str :: "int \<Rightarrow> string" where
  \<comment> \<open>\<^verbatim>\<open>str(i)\<close> of an integer: decimal digits, a minus sign when negative\<close>
  "py_str i = (if i < 0 then CHR ''-'' # str_nat (nat (- i)) else str_nat (nat i))"

definition zfill :: "string \<Rightarrow> nat \<Rightarrow> string" where
  \<comment> \<open>\<^verbatim>\<open>s.zfill(width)\<close>: zeros go after a leading sign\<close>
  "zfill s width =
     (case s of
        c # rest \<Rightarrow>
          if c = CHR ''+'' \<or> c = CHR ''-''
          then c # replicate (width - length s) CHR ''0'' @ rest
          else replicate (width - length s) CHR ''0'' @ s
      | [] \<Rightarrow> replicate width CHR ''0'')"

definition os_path_join :: "string \<Rightarrow> string \<Rightarrow> string" where
  \<comment> \<open>\<^verbatim>\<open>os.path.join(a, b)\<close> (POSIX)\<close>
  "os_path_join a b =
     (if startswith b ''/'' then b
      else if a = [] \<or> endswith a ''/'' then a @ b
      else a @ ''/'' @ b)"

subsection \<open>Exceptions, documents, the network and the trace of effects\<close>

text \<open>
  \<open>RequestException\<close> is the class the Fetcher catches; \<open>OtherException\<close> stands for every
  exception that is not a \<open>requests.RequestException\<close>, which the \<^verbatim>\<open>except\<close> clause
  lets through. \<open>AttributeError\<close> is what a method call on \<open>None\<close> raises, \<open>ValueError\<close>
  what \<^verbatim>\<open>time.sleep\<close> raises on a negative duration, \<open>SelectorSyntaxError\<close> what
  \<^verbatim>\<open>select_one\<close> raises on a selector that is not well-formed CSS, and \<open>OSError\<close> stands
  for the errors of the file system calls (\<open>FileNotFoundError\<close>, \<open>FileExistsError\<close>,
  \<open>NotADirectoryError\<close>, \<open>IsADirectoryError\<close> and \<open>PermissionError\<close> are subclasses of it).
\<close>

datatype exn =
  RequestException | OtherException | AttributeError | ValueError | SelectorSyntaxError | OSError

text \<open>
  A parsed document is seen through the calls the source makes on it. An element has its
  attribute dict (\<^verbatim>\<open>tag.get(name)\<close>) and the result of \<^verbatim>\<open>get_text(strip=True)\<close>; a listing
  container answers \<^verbatim>\<open>select_one(selector)\<close>; a page answers \<^verbatim>\<open>select(selector)\<close> with
  its containers in document order.

  Which selector strings the CSS engine accepts is not in the source, so it is left open:
  a container carries the set \<open>selector_errors\<close> of the selectors on which its
  \<^verbatim>\<open>select_one\<close> raises a \<open>SelectorSyntaxError\<close>, and \<open>select_one\<close> is its answer on the
  others. The selector literals of the source itself are well-formed CSS and are never
  refused. The Collector calls \<^verbatim>\<open>select\<close> and \<^verbatim>\<open>select_one\<close> on such literals only;
  \<^verbatim>\<open>parse_article\<close> receives its two selectors as arguments, and there a refused
  selector raises.
\<close>

record element =
  attrs :: "string \<rightharpoonup> string"
  stripped_text :: string

record container =
  select_one :: "string \<Rightarrow> element option"
  selector_errors :: "string set"

record soup =
  select :: "string \<Rightarrow> container list"

definition selector_literals :: "string set" where
  \<comment> \<open>the selectors written out in the source (lines 142, 145, 151, 163, 164)\<close>
  "selector_literals =
     {''div.Chequeo.Chequeo-fila'', ''div.view-content .Chequeo'', ''a'',
      ''h3.Chequeo-texto-titulo'', ''p.Chequeo-texto-parrafo''}"

definition select_one_call :: "container \<Rightarrow> string \<Rightarrow> exn + element option" where
  \<comment> \<open>\<^verbatim>\<open>container.select_one(selector)\<close> with a selector that is an argument\<close>
  "select_one_call cont selector =
     (if selector \<in> selector_errors cont \<and> selector \<notin> selector_literals
      then Inl SelectorSyntaxError
      else Inr (select_one cont selector))"

text \<open>
  One call of \<^verbatim>\<open>requests.get\<close> either raises or returns a response, of which the source
  reads the status code and the body (kept here already parsed). The network is any
  function of the URL and the attempt number: within one run every page URL is fetched by
  one call of the Fetcher, so this fixes no outcome; the header picked by
  \<^verbatim>\<open>random.choice\<close> only influences the outcome, which is arbitrary.
\<close>

datatype outcome = Raises exn | Returns int soup

type_synonym network = "string \<Rightarrow> int \<Rightarrow> outcome"

datatype event = Get string | Sleep rat

definition time_sleep :: "rat \<Rightarrow> event list \<Rightarrow> exn + event list" where
  \<comment> \<open>\<^verbatim>\<open>time.sleep(t)\<close>\<close>
  "time_sleep t tr = (if t < 0 then Inl ValueError else Inr (tr @ [Sleep t]))"

subsection \<open>The Fetcher: \<^verbatim>\<open>get_html_requests\<close>\<close>

text \<open>
  The loop \<^verbatim>\<open>for attempt in range(1, max_retries + 1)\<close> runs over the list
  \<open>[1..max_retries]\<close>. The result \<open>Inr (None, tr)\<close> is the source's \<^verbatim>\<open>return None\<close>,
  \<open>Inl e\<close> an exception that leaves the function.
\<close>

fun get_html_attempts ::
  "network \<Rightarrow> string \<Rightarrow> rat \<Rightarrow> int list \<Rightarrow> event list \<Rightarrow> exn + (soup option \<times> event list)"
where
  "get_html_attempts net url sleep_time [] tr = Inr (None, tr)"
| "get_html_attempts net url sleep_time (attempt # rest) tr =
     (case net url attempt of
        Raises e \<Rightarrow>
          if e = RequestException
          then (case time_sleep (1 / 2 * of_int attempt) (tr @ [Get url]) of
                  Inl e' \<Rightarrow> Inl e'
                | Inr tr' \<Rightarrow> get_html_attempts net url sleep_time rest tr')
          else Inl e
      | Returns status_code doc \<Rightarrow>
          if 200 \<le> status_code \<and> status_code < 300
          then (if sleep_time \<noteq> 0
                then (case time_sleep sleep_time (tr @ [Get url]) of
                        Inl e' \<Rightarrow> Inl e'
                      | Inr tr' \<Rightarrow> Inr (Some doc, tr'))
                else Inr (Some doc, tr @ [Get url]))
          else (case time_sleep (1 / 2 * of_int attempt) (tr @ [Get url]) of
                  Inl e' \<Rightarrow> Inl e'
                | Inr tr' \<Rightarrow> get_html_attempts net url sleep_time rest tr'))"

definition get_html_requests ::
  "network \<Rightarrow> string \<Rightarrow> rat \<Rightarrow> int \<Rightarrow> event list \<Rightarrow> exn + (soup option \<times> event list)"
where
  "get_html_requests net url sleep_time max_retries tr =
     get_html_attempts net url sleep_time [1..max_retries] tr"

subsection \<open>The Field Extractor: \<^verbatim>\<open>parse_article\<close>\<close>

fun get_text :: "element option \<Rightarrow> exn + string" where
  \<comment> \<open>\<^verbatim>\<open>el.get_text(strip=True)\<close>; on \<open>None\<close> the attribute lookup raises\<close>
  "get_text None = Inl AttributeError"
| "get_text (Some el) = Inr (stripped_text el)"

definition parse_article :: "container \<Rightarrow> string \<Rightarrow> string \<Rightarrow> exn + (string \<times> string)" where
  "parse_article cont title_selector body_selector =
     (case select_one_call cont title_selector of
        Inl e \<Rightarrow> Inl e
      | Inr title_el \<Rightarrow>
          (case select_one_call cont body_selector of
             Inl e \<Rightarrow> Inl e
           | Inr body_el \<Rightarrow>
               (case (if title_el \<noteq> None then get_text title_el else Inr '''') of
                  Inl e \<Rightarrow> Inl e
                | Inr t \<Rightarrow>
                    (let title = py_or t ''''
                     in case (if body_el \<noteq> None then get_text body_el else Inr '''') of
                          Inl e \<Rightarrow> Inl e
                        | Inr d \<Rightarrow>
                            (let description = py_or d '''' in Inr (title, description))))))"

subsection \<open>The Pagination Collector: \<^verbatim>\<open>scrape_colombiacheck\<close>\<close>

type_synonym article = "string \<rightharpoonup> string"

definition BASE_URL_format :: "int \<Rightarrow> string" where
  \<comment> \<open>\<^verbatim>\<open>BASE_URL.format(page)\<close>\<close>
  "BASE_URL_format page = ''https://colombiacheck.com/chequeos?page='' @ py_str page"

definition resolve_link :: "string \<Rightarrow> string" where
  \<comment> \<open>lines 156-157: a non-empty link that does not start with \<open>http\<close> gets the origin\<close>
  "resolve_link link =
     (if link \<noteq> [] \<and> \<not> startswith link ''http''
      then ''https://colombiacheck.com'' @ link else link)"

definition href_of :: "element \<Rightarrow> string" where
  \<comment> \<open>line 155: \<^verbatim>\<open>a_tag.get("href") or ""\<close>\<close>
  "href_of a_tag = (case attrs a_tag ''href'' of None \<Rightarrow> '''' | Some v \<Rightarrow> py_or v '''')"

definition cheque_link :: "container \<Rightarrow> string" where
  \<comment> \<open>lines 151-157 read as one value: the resolved URL of a container, empty when the
    container has no anchor (the loop skips it then, as it skips an empty link)\<close>
  "cheque_link cheque =
     (case select_one cheque ''a'' of None \<Rightarrow> [] | Some a_tag \<Rightarrow> resolve_link (href_of a_tag))"

text \<open>
  The inner loop \<^verbatim>\<open>for cheque in cheques\<close>: \<^verbatim>\<open>continue\<close> is the recursive call on the
  rest, \<^verbatim>\<open>break\<close> returns at once. It updates the article list and the seen-set.
\<close>

fun process_cheques ::
  "int \<Rightarrow> container list \<Rightarrow> article list \<Rightarrow> string set \<Rightarrow> exn + (article list \<times> string set)"
where
  "process_cheques limit [] articles seen_urls = Inr (articles, seen_urls)"
| "process_cheques limit (cheque # rest) articles seen_urls =
     (case select_one cheque ''a'' of
        None \<Rightarrow> process_cheques limit rest articles seen_urls
      | Some a_tag \<Rightarrow>
          (let link = resolve_link (href_of a_tag)
           in if link = [] \<or> link \<in> seen_urls
              then process_cheques limit rest articles seen_urls
              else (let seen_urls' = insert link seen_urls
                    in case parse_article cheque ''h3.Chequeo-texto-titulo''
                              ''p.Chequeo-texto-parrafo'' of
                         Inl e \<Rightarrow> Inl e
                       | Inr (title, description) \<Rightarrow>
                           (let articles' = articles @
                                  [[''title'' \<mapsto> title, ''description'' \<mapsto> description,
                                    ''url'' \<mapsto> link]]
                            in if limit \<le> int (length articles')
                               then Inr (articles', seen_urls')
                               else process_cheques limit rest articles' seen_urls'))))"

record state =
  articles :: "article list"
  seen_urls :: "string set"
  page :: int
  trace :: "event list"

text \<open>
  One pass through the body of the \<^verbatim>\<open>while\<close> loop (lines 137-178). \<open>Break\<close> is a
  \<^verbatim>\<open>break\<close>, \<open>Continue\<close> the fall through to the next test of the loop condition.
\<close>

datatype flow = Break state | Continue state

definition scrape_page :: "network \<Rightarrow> int \<Rightarrow> rat \<Rightarrow> state \<Rightarrow> exn + flow" where
  "scrape_page net limit sleep_time st =
     (let url = BASE_URL_format (page st)
      in case get_html_requests net url sleep_time 3 (trace st) of
           Inl e \<Rightarrow> Inl e
         | Inr (None, tr) \<Rightarrow> Inr (Break (st\<lparr>trace := tr\<rparr>))
         | Inr (Some doc, tr) \<Rightarrow>
             (let cheques = select doc ''div.Chequeo.Chequeo-fila'';
                  cheques = (if cheques = [] then select doc ''div.view-content .Chequeo''
                             else cheques)
              in if cheques = [] then Inr (Break (st\<lparr>trace := tr\<rparr>))
                 else (case process_cheques limit cheques (articles st) (seen_urls st) of
                         Inl e \<Rightarrow> Inl e
                       | Inr (articles', seen_urls') \<Rightarrow>
                           (case time_sleep sleep_time tr of
                              Inl e \<Rightarrow> Inl e
                            | Inr tr' \<Rightarrow>
                                Inr (Continue \<lparr>articles = articles', seen_urls = seen_urls',
                                       page = page st + 1, trace = tr'\<rparr>)))))"

function scrape_loop :: "network \<Rightarrow> int \<Rightarrow> int \<Rightarrow> rat \<Rightarrow> state \<Rightarrow> exn + state" where
  "scrape_loop net limit max_pages sleep_time st =
     (if int (length (articles st)) < limit \<and> page st \<le> max_pages
      then (case scrape_page net limit sleep_time st of
              Inl e \<Rightarrow> Inl e
            | Inr (Break st') \<Rightarrow> Inr st'
            | Inr (Continue st') \<Rightarrow> scrape_loop net limit max_pages sleep_time st')
      else Inr st)"
  by pat_completeness auto
termination
  by (relation "measure (\<lambda>(net, limit, max_pages, sleep_time, st). nat (max_pages + 1 - page st))")
     (auto simp: scrape_page_def Let_def
           split: sum.splits option.splits if_splits prod.splits)

declare scrape_loop.simps [simp del]

definition scrape_colombiacheck :: "network \<Rightarrow> int \<Rightarrow> int \<Rightarrow> rat \<Rightarrow> exn + article list" where
  "scrape_colombiacheck net limit max_pages sleep_time =
     (case scrape_loop net limit max_pages sleep_time
             \<lparr>articles = [], seen_urls = {}, page = 1, trace = []\<rparr> of
        Inl e \<Rightarrow> Inl e
      | Inr st \<Rightarrow> Inr (articles st))"

text \<open>
  The same loop cut off after \<open>n\<close> passes through its body: \<open>None\<close> says that \<open>n\<close> passes
  did not end the loop.
\<close>

fun scrape_loop_bounded ::
  "nat \<Rightarrow> network \<Rightarrow> int \<Rightarrow> int \<Rightarrow> rat \<Rightarrow> state \<Rightarrow> (exn + state) option"
where
  "scrape_loop_bounded 0 net limit max_pages sleep_time st =
     (if int (length (articles st)) < limit \<and> page st \<le> max_pages then None
      else Some (Inr st))"
| "scrape_loop_bounded (Suc n) net limit max_pages sleep_time st =
     (if int (length (articles st)) < limit \<and> page st \<le> max_pages
      then (case scrape_page net limit sleep_time st of
              Inl e \<Rightarrow> Some (Inl e)
            | Inr (Break st') \<Rightarrow> Some (Inr st')
            | Inr (Continue st') \<Rightarrow> scrape_loop_bounded n net limit max_pages sleep_time st')
      else Some (Inr st))"

subsection \<open>The file system\<close>

text \<open>
  The file system is a tree: a node is named by its \<open>key\<close>, the list of names from the root
  \<open>[]\<close> down to it. The state holds the working directory, the set of directories (the
  root is always one), the regular files with their content, and the set \<open>denied\<close> of the
  keys at which the system refuses to create or write for a reason the tree does not show
  (permissions, a full disk). The content of a file is the list of the pieces written to
  it: a piece of text, or a CSV row (a cell is a string or, for the veracity flag, an
  integer): how \<^verbatim>\<open>csv.writer\<close> prints a row is not modelled. There are no symbolic links.

  A path string is resolved as the system does it: it is split at its slashes, it starts
  at the root when it begins with a slash and at the working directory otherwise, an empty
  component and \<open>.\<close> stay where they are, \<open>..\<close> goes to the parent, a name goes one level
  down, and every step is taken from a directory. The empty path names nothing.
\<close>

type_synonym key = "string list"

datatype cell = Str string | Num int

datatype piece = Chars string | Row "cell list"

record filesystem =
  cwd :: key
  dirs :: "key set"
  files :: "key \<rightharpoonup> piece list"
  denied :: "key set"

definition is_dir :: "filesystem \<Rightarrow> key \<Rightarrow> bool" where
  "is_dir fs k = (k = [] \<or> k \<in> dirs fs)"

fun components :: "string \<Rightarrow> string list" where
  \<comment> \<open>\<^verbatim>\<open>path.split("/")\<close>; the list of components is never empty\<close>
  "components [] = [[]]"
| "components (c # s) =
     (if c = CHR ''/'' then [] # components s
      else (case components s of [] \<Rightarrow> [[c]] | x # xs \<Rightarrow> (c # x) # xs))"

fun walk :: "filesystem \<Rightarrow> key \<Rightarrow> string list \<Rightarrow> key option" where
  "walk fs k [] = Some k"
| "walk fs k (c # cs) =
     (if \<not> is_dir fs k then None
      else if c = [] \<or> c = ''.'' then walk fs k cs
      else if c = ''..'' then walk fs (butlast k) cs
      else walk fs (k @ [c]) cs)"

definition start_of :: "filesystem \<Rightarrow> string \<Rightarrow> key" where
  "start_of fs path = (if startswith path ''/'' then [] else cwd fs)"

definition resolve :: "filesystem \<Rightarrow> string \<Rightarrow> key option" where
  "resolve fs path =
     (if path = [] then None else walk fs (start_of fs path) (components path))"

definition path_exists :: "filesystem \<Rightarrow> string \<Rightarrow> bool" where
  \<comment> \<open>\<^verbatim>\<open>os.path.exists(path)\<close>\<close>
  "path_exists fs path =
     (case resolve fs path of None \<Rightarrow> False | Some k \<Rightarrow> is_dir fs k \<or> files fs k \<noteq> None)"

definition isfile :: "filesystem \<Rightarrow> string \<Rightarrow> bool" where
  \<comment> \<open>\<^verbatim>\<open>os.path.isfile(path)\<close>\<close>
  "isfile fs path =
     (case resolve fs path of None \<Rightarrow> False | Some k \<Rightarrow> \<not> is_dir fs k \<and> files fs k \<noteq> None)"

definition file_at :: "filesystem \<Rightarrow> string \<Rightarrow> piece list option" where
  \<comment> \<open>the content of the regular file that a path names, if it names one\<close>
  "file_at fs path =
     (case resolve fs path of None \<Rightarrow> None | Some k \<Rightarrow> if is_dir fs k then None else files fs k)"

definition open_file :: "filesystem \<Rightarrow> string \<Rightarrow> exn + key" where
  \<comment> \<open>\<^verbatim>\<open>open(path, "w")\<close> and \<^verbatim>\<open>open(path, "a")\<close>: the file opened, or the error raised when
    a directory on the way is missing or is a file, when the path names a directory, or
    when the system refuses\<close>
  "open_file fs path =
     (case resolve fs path of
        None \<Rightarrow> Inl OSError
      | Some k \<Rightarrow> if is_dir fs k \<or> k \<in> denied fs then Inl OSError else Inr k)"

text \<open>
  \<^verbatim>\<open>os.makedirs\<close> makes the directories of a path that are not there yet, the intermediate
  ones too. It raises when the path is empty or exists already, when a name on the way is
  a regular file, when the system refuses, and when the last name of the path is \<open>..\<close>
  (the final \<^verbatim>\<open>mkdir\<close> then meets a directory that exists).
\<close>

fun mkdirs :: "filesystem \<Rightarrow> key \<Rightarrow> string list \<Rightarrow> exn + filesystem" where
  "mkdirs fs k [] = (if is_dir fs k then Inr fs else Inl OSError)"
| "mkdirs fs k (c # cs) =
     (if \<not> is_dir fs k then Inl OSError
      else if c = [] \<or> c = ''.'' then mkdirs fs k cs
      else if c = ''..'' then mkdirs fs (butlast k) cs
      else if is_dir fs (k @ [c]) then mkdirs fs (k @ [c]) cs
      else if files fs (k @ [c]) \<noteq> None \<or> k @ [c] \<in> denied fs then Inl OSError
      else mkdirs (fs\<lparr>dirs := insert (k @ [c]) (dirs fs)\<rparr>) (k @ [c]) cs)"

definition os_makedirs :: "string \<Rightarrow> filesystem \<Rightarrow> exn + filesystem" where
  "os_makedirs path fs =
     (if path = [] \<or> path_exists fs path then Inl OSError
      else (let names = filter (\<lambda>c. c \<noteq> [] \<and> c \<noteq> ''.'') (components path)
            in if names \<noteq> [] \<and> last names = ''..'' then Inl OSError
               else mkdirs fs (start_of fs path) (components path)))"

definition ensure_dir :: "string \<Rightarrow> filesystem \<Rightarrow> exn + filesystem" where
  "ensure_dir path fs = (if \<not> path_exists fs path then os_makedirs path fs else Inr fs)"

subsection \<open>The Persistence Sinks: \<^verbatim>\<open>save_articles\<close> and \<^verbatim>\<open>save_articles_csv\<close>\<close>

definition newline :: string where
  "newline = [CHR 0x0A]"

definition article_text :: "string \<Rightarrow> article \<Rightarrow> string" where
  \<comment> \<open>lines 38-41: what the four \<^verbatim>\<open>f.write\<close> calls write, in order\<close>
  "article_text portal article =
     concat
      [''Fuente: '' @ portal @ newline,
       ''URL: '' @ dict_get article ''url'' '''' @ newline,
       ''T'' @ [CHR 0xC3, CHR 0xAD] @ ''tulo: '' @ dict_get article ''title'' '''' @
         newline @ newline,
       ''Descripci'' @ [CHR 0xC3, CHR 0xB3] @ ''n: '' @ dict_get article ''description'' '''' @
         newline]"

definition article_filename :: "string \<Rightarrow> int \<Rightarrow> string" where
  \<comment> \<open>line 34: \<^verbatim>\<open>f"{portal}_{str(idx).zfill(3)}.txt"\<close>\<close>
  "article_filename portal idx = portal @ ''_'' @ zfill (py_str idx) 3 @ ''.txt''"

text \<open>
  The loop \<^verbatim>\<open>for idx, article in enumerate(articles, 1)\<close>, started at \<open>idx = 1\<close>. Opening
  with \<open>"w"\<close> empties the file, so after the \<^verbatim>\<open>with\<close> block it holds the text written. An
  error of \<^verbatim>\<open>open\<close> leaves the function; the files written before it stay.
\<close>

fun save_articles_loop ::
  "string \<Rightarrow> string \<Rightarrow> int \<Rightarrow> article list \<Rightarrow> filesystem \<Rightarrow> exn + filesystem"
where
  "save_articles_loop save_path portal idx [] fs = Inr fs"
| "save_articles_loop save_path portal idx (article # rest) fs =
     (let filename = article_filename portal idx;
          filepath = os_path_join save_path filename
      in case open_file fs filepath of
           Inl e \<Rightarrow> Inl e
         | Inr f \<Rightarrow>
             save_articles_loop save_path portal (idx + 1) rest
               (fs\<lparr>files := (files fs)(f \<mapsto> [Chars (article_text portal article)])\<rparr>))"

definition save_articles ::
  "article list \<Rightarrow> string \<Rightarrow> string \<Rightarrow> string \<Rightarrow> filesystem \<Rightarrow> exn + filesystem"
where
  "save_articles arts label portal base_dir fs =
     (let save_path = os_path_join base_dir label
      in case ensure_dir save_path fs of
           Inl e \<Rightarrow> Inl e
         | Inr fs' \<Rightarrow> save_articles_loop save_path portal 1 arts fs')"

definition veracidad_of :: "string \<Rightarrow> int" where
  \<comment> \<open>line 58\<close>
  "veracidad_of label = (if py_lower label = ''verdad'' then 1 else 0)"

definition csv_header :: "cell list" where
  "csv_header =
     [Str ''fuente'', Str ''titulo'', Str ''descripcion'', Str ''url'', Str ''veracidad'']"

definition csv_row :: "string \<Rightarrow> int \<Rightarrow> article \<Rightarrow> cell list" where
  \<comment> \<open>lines 67-73\<close>
  "csv_row portal veracidad article =
     [Str portal, Str (dict_get article ''title'' ''''),
      Str (dict_get article ''description'' ''''), Str (dict_get article ''url'' ''''),
      Num veracidad]"

text \<open>The loop \<^verbatim>\<open>for article in articles\<close> of the CSV sink: one \<^verbatim>\<open>writerow\<close> each.\<close>

fun write_rows :: "string \<Rightarrow> int \<Rightarrow> article list \<Rightarrow> piece list \<Rightarrow> piece list" where
  "write_rows portal veracidad [] csvfile = csvfile"
| "write_rows portal veracidad (article # rest) csvfile =
     write_rows portal veracidad rest (csvfile @ [Row (csv_row portal veracidad article)])"

text \<open>
  Opening with \<open>"a"\<close> keeps what the file holds and makes the file when there is none.
\<close>

definition save_articles_csv ::
  "article list \<Rightarrow> string \<Rightarrow> string \<Rightarrow> string \<Rightarrow> string \<Rightarrow> filesystem \<Rightarrow> exn + filesystem"
where
  "save_articles_csv arts label portal base_dir filename fs =
     (let save_path = os_path_join base_dir filename
      in case ensure_dir base_dir fs of
           Inl e \<Rightarrow> Inl e
         | Inr fs' \<Rightarrow>
             (let veracidad = veracidad_of label;
                  file_exists = isfile fs' save_path
              in case open_file fs' save_path of
                   Inl e \<Rightarrow> Inl e
                 | Inr f \<Rightarrow>
                     (let csvfile = (case files fs' f of None \<Rightarrow> [] | Some pieces \<Rightarrow> pieces);
                          csvfile = (if \<not> file_exists then csvfile @ [Row csv_header]
                                     else csvfile);
                          csvfile = write_rows portal veracidad arts csvfile
                      in Inr (fs'\<lparr>files := (files fs')(f \<mapsto> csvfile)\<rparr>))))"

subsection \<open>Predicates and functions of the statements\<close>

text \<open>
  What "the first container in document order wins" says of an article \<open>a\<close> added while the
  containers \<open>cs\<close> of a page are processed with the seen-set \<open>seen\<close>: \<open>a\<close> is built from a
  container of \<open>cs\<close> whose resolved URL is not empty, was not seen before, and is the
  resolved URL of no container before it in \<open>cs\<close>.
\<close>

definition first_seen_article :: "container list \<Rightarrow> string set \<Rightarrow> article \<Rightarrow> bool" where
  "first_seen_article cs seen a =
     (\<exists>i < length cs. \<exists>t d.
        cheque_link (cs ! i) \<noteq> [] \<and> cheque_link (cs ! i) \<notin> seen \<and>
        (\<forall>c' \<in> set (take i cs). cheque_link c' \<noteq> cheque_link (cs ! i)) \<and>
        parse_article (cs ! i) ''h3.Chequeo-texto-titulo'' ''p.Chequeo-texto-parrafo'' =
          Inr (t, d) \<and>
        a = [''title'' \<mapsto> t, ''description'' \<mapsto> d, ''url'' \<mapsto> cheque_link (cs ! i)])"

text \<open>
  The deduplication as the specification words it, to be compared with the loop: the
  containers of a page that count are those, in document order, whose resolved URL is not
  empty, is not in the seen-set and is not the resolved URL of an earlier container of the
  page; the article of a container has the text of its title element and of its body
  element (empty when the element is missing) and its resolved URL.
\<close>

definition first_seen :: "container list \<Rightarrow> string set \<Rightarrow> container list" where
  "first_seen cs seen =
     map (\<lambda>i. cs ! i)
       (filter (\<lambda>i. cheque_link (cs ! i) \<noteq> [] \<and> cheque_link (cs ! i) \<notin> seen \<and>
                    cheque_link (cs ! i) \<notin> cheque_link ` set (take i cs))
          [0..<length cs])"

definition cheque_article :: "container \<Rightarrow> article" where
  "cheque_article cheque =
     [''title'' \<mapsto>
        (case select_one cheque ''h3.Chequeo-texto-titulo'' of
           None \<Rightarrow> [] | Some el \<Rightarrow> stripped_text el),
      ''description'' \<mapsto>
        (case select_one cheque ''p.Chequeo-texto-parrafo'' of
           None \<Rightarrow> [] | Some el \<Rightarrow> stripped_text el),
      ''url'' \<mapsto> cheque_link cheque]"

subsection \<open>Concrete documents, networks and file systems\<close>

text \<open>
  Inputs on which the functions are run: a listing container with a link, a title and a
  body; a page whose primary selector gives the listed containers; a network that serves
  that page as page 1 and fails on every other URL; the network that always fails; and a
  file system whose working directory \<open>/work\<close> is empty.
\<close>

definition example_cheque :: "string \<Rightarrow> string \<Rightarrow> string \<Rightarrow> container" where
  "example_cheque href title body =
     \<lparr>select_one = (\<lambda>sel.
        if sel = ''a'' then Some \<lparr>attrs = [''href'' \<mapsto> href], stripped_text = []\<rparr>
        else if sel = ''h3.Chequeo-texto-titulo''
          then Some \<lparr>attrs = Map.empty, stripped_text = title\<rparr>
        else if sel = ''p.Chequeo-texto-parrafo''
          then Some \<lparr>attrs = Map.empty, stripped_text = body\<rparr>
        else None),
      selector_errors = {}\<rparr>"

definition example_soup :: "container list \<Rightarrow> soup" where
  "example_soup cheques =
     \<lparr>select = (\<lambda>sel. if sel = ''div.Chequeo.Chequeo-fila'' then cheques else [])\<rparr>"

definition example_net :: "container list \<Rightarrow> network" where
  "example_net cheques =
     (\<lambda>url attempt.
        if url = ''https://colombiacheck.com/chequeos?page=1''
        then Returns 200 (example_soup cheques)
        else Raises RequestException)"

definition failing_net :: network where
  "failing_net = (\<lambda>url attempt. Raises RequestException)"

definition empty_fs :: filesystem where
  "empty_fs = \<lparr>cwd = [''work''], dirs = {[''work'']}, files = Map.empty, denied = {}\<rparr>"

section \<open>Properties\<close>

subsection \<open>Auxiliary facts about the extractor and the inner loop\<close>

lemma parse_article_Inr:
  assumes "ts \<notin> selector_errors cont \<or> ts \<in> selector_literals"
    and "bs \<notin> selector_errors cont \<or> bs \<in> selector_literals"
  shows "parse_article cont ts bs =
     Inr (case select_one cont ts of None \<Rightarrow> '''' | Some el \<Rightarrow> stripped_text el,
          case select_one cont bs of None \<Rightarrow> '''' | Some el \<Rightarrow> stripped_text el)"
  using assms
  by (auto simp: parse_article_def select_one_call_def py_or_def Let_def split: option.splits)

lemma parse_article_literals:
  "parse_article cont ''h3.Chequeo-texto-titulo'' ''p.Chequeo-texto-parrafo'' =
     Inr (case select_one cont ''h3.Chequeo-texto-titulo'' of
            None \<Rightarrow> '''' | Some el \<Rightarrow> stripped_text el,
          case select_one cont ''p.Chequeo-texto-parrafo'' of
            None \<Rightarrow> '''' | Some el \<Rightarrow> stripped_text el)"
  by (rule parse_article_Inr) (simp_all add: selector_literals_def)

lemma process_cheques_Cons_cases [consumes 1, case_names skip last more]:
  assumes "process_cheques limit (c # cs) arts seen = Inr (arts', seen')"
  obtains
    "cheque_link c = [] \<or> cheque_link c \<in> seen"
      "process_cheques limit cs arts seen = Inr (arts', seen')"
  | t d where "cheque_link c \<noteq> []" "cheque_link c \<notin> seen"
      "parse_article c ''h3.Chequeo-texto-titulo'' ''p.Chequeo-texto-parrafo'' = Inr (t, d)"
      "limit \<le> int (length arts) + 1"
      "arts' = arts @ [[''title'' \<mapsto> t, ''description'' \<mapsto> d, ''url'' \<mapsto> cheque_link c]]"
      "seen' = insert (cheque_link c) seen"
  | t d where "cheque_link c \<noteq> []" "cheque_link c \<notin> seen"
      "parse_article c ''h3.Chequeo-texto-titulo'' ''p.Chequeo-texto-parrafo'' = Inr (t, d)"
      "\<not> limit \<le> int (length arts) + 1"
      "process_cheques limit cs
         (arts @ [[''title'' \<mapsto> t, ''description'' \<mapsto> d, ''url'' \<mapsto> cheque_link c]])
         (insert (cheque_link c) seen) = Inr (arts', seen')"
proof (cases "select_one c ''a''")
  case None
  with assms that(1) show ?thesis by (simp add: cheque_link_def)
next
  case (Some a_tag)
  obtain t d where pa:
    "parse_article c ''h3.Chequeo-texto-titulo'' ''p.Chequeo-texto-parrafo'' = Inr (t, d)"
    by (simp add: parse_article_literals)
  from Some have link: "cheque_link c = resolve_link (href_of a_tag)"
    by (simp add: cheque_link_def)
  show ?thesis
  proof (cases "cheque_link c = [] \<or> cheque_link c \<in> seen")
    case True
    with assms Some link that(1) show ?thesis by (auto simp: Let_def)
  next
    case False
    show ?thesis
    proof (cases "limit \<le> int (length arts) + 1")
      case True
      with assms Some link False pa that(2) [of t d] show ?thesis by (auto simp: Let_def)
    next
      case nolimit: False
      with assms Some link False pa that(3) [of t d] show ?thesis by (auto simp: Let_def)
    qed
  qed
qed

lemma process_cheques_limit:
  "int (length arts) < limit \<Longrightarrow> process_cheques limit cs arts seen = Inr (arts', seen')
     \<Longrightarrow> int (length arts') \<le> limit"
proof (induction cs arbitrary: arts seen)
  case Nil
  then show ?case by simp
next
  case (Cons c cs)
  from Cons.prems(2) show ?case
  proof (cases rule: process_cheques_Cons_cases)
    case skip
    with Cons.IH [of arts seen] Cons.prems(1) show ?thesis by simp
  next
    case (last t d)
    with Cons.prems(1) show ?thesis by simp
  next
    case (more t d)
    from Cons.IH [OF _ more(5)] more(4) show ?thesis by simp
  qed
qed

lemma process_cheques_length:
  "process_cheques limit cs arts seen = Inr (arts', seen')
     \<Longrightarrow> length arts' \<le> length arts + length cs"
proof (induction cs arbitrary: arts seen)
  case Nil
  then show ?case by simp
next
  case (Cons c cs)
  from Cons.prems show ?case
  proof (cases rule: process_cheques_Cons_cases)
    case skip
    with Cons.IH [of arts seen] show ?thesis by simp
  next
    case (last t d)
    then show ?thesis by simp
  next
    case (more t d)
    from Cons.IH [OF more(5)] show ?thesis by simp
  qed
qed

lemma get_html_attempts_Some:
  "get_html_attempts net url sleep_time as tr = Inr (Some doc, tr')
     \<Longrightarrow> \<exists>attempt status. net url attempt = Returns status doc"
proof (induction as arbitrary: tr)
  case Nil
  then show ?case by simp
next
  case (Cons a as)
  then show ?case
    by (auto split: outcome.splits if_splits sum.splits)
qed

subsection \<open>Auxiliary facts about the outer loop\<close>

lemma scrape_page_Break:
  assumes "scrape_page net limit sleep_time st = Inr (Break st')"
  shows "articles st' = articles st \<and> seen_urls st' = seen_urls st \<and> page st' = page st"
  using assms
  by (auto simp: scrape_page_def Let_def split: sum.splits option.splits if_splits prod.splits)

lemma scrape_page_Continue_D:
  assumes "scrape_page net limit sleep_time st = Inr (Continue st')"
  shows "\<exists>doc tr cheques.
    get_html_requests net (BASE_URL_format (page st)) sleep_time 3 (trace st) = Inr (Some doc, tr) \<and>
    (cheques = select doc ''div.Chequeo.Chequeo-fila'' \<or>
     cheques = select doc ''div.view-content .Chequeo'') \<and>
    cheques \<noteq> [] \<and>
    process_cheques limit cheques (articles st) (seen_urls st) =
       Inr (articles st', seen_urls st') \<and>
    page st' = page st + 1"
  using assms
  by (fastforce simp: scrape_page_def Let_def
        split: sum.splits option.splits if_splits prod.splits)

text \<open>The rule of the \<^verbatim>\<open>while\<close> loop: what holds at the start and is kept by every pass
  through the body holds of the state the loop returns.\<close>

lemma scrape_loop_invariant:
  assumes run: "scrape_loop net limit max_pages sleep_time st = Inr st'"
    and base: "I st"
    and break: "\<And>s s'. I s \<Longrightarrow> int (length (articles s)) < limit \<Longrightarrow> page s \<le> max_pages
        \<Longrightarrow> scrape_page net limit sleep_time s = Inr (Break s') \<Longrightarrow> I s'"
    and continue: "\<And>s s'. I s \<Longrightarrow> int (length (articles s)) < limit \<Longrightarrow> page s \<le> max_pages
        \<Longrightarrow> scrape_page net limit sleep_time s = Inr (Continue s') \<Longrightarrow> I s'"
  shows "I st'"
  using assms
proof (induction net limit max_pages sleep_time st rule: scrape_loop.induct)
  case (1 net limit max_pages sleep_time st)
  note brk = "1.prems"(3) and cont = "1.prems"(4)
  show ?case
  proof (cases "int (length (articles st)) < limit \<and> page st \<le> max_pages")
    case False
    with "1.prems"(1) have "st' = st" by (simp add: scrape_loop.simps)
    with "1.prems"(2) show ?thesis by simp
  next
    case guard: True
    show ?thesis
    proof (cases "scrape_page net limit sleep_time st")
      case (Inl e)
      with guard "1.prems"(1) show ?thesis by (simp add: scrape_loop.simps)
    next
      case (Inr fl)
      show ?thesis
      proof (cases fl)
        case (Break st1)
        with Inr guard "1.prems"(1) have "st' = st1" by (simp add: scrape_loop.simps)
        with brk [of st st1] "1.prems"(2) guard Inr Break show ?thesis by simp
      next
        case (Continue st1)
        with Inr guard "1.prems"(1)
        have run: "scrape_loop net limit max_pages sleep_time st1 = Inr st'"
          by (simp add: scrape_loop.simps)
        from cont [of st st1] "1.prems"(2) guard Inr Continue have "I st1" by simp
        from "1.IH" [OF guard Inr Continue run this brk cont] show ?thesis by simp
      qed
    qed
  qed
qed

lemma scrape_loop_limit:
  assumes "scrape_loop net limit max_pages sleep_time st = Inr st'"
  shows "int (length (articles st')) \<le> max limit (int (length (articles st)))"
proof (rule scrape_loop_invariant [OF assms,
        where I = "\<lambda>s. int (length (articles s)) \<le> max limit (int (length (articles st)))"])
  show "int (length (articles st)) \<le> max limit (int (length (articles st)))" by simp
next
  fix s s' assume "scrape_page net limit sleep_time s = Inr (Break s')"
    and "int (length (articles s)) \<le> max limit (int (length (articles st)))"
  then show "int (length (articles s')) \<le> max limit (int (length (articles st)))"
    by (simp add: scrape_page_Break)
next
  fix s s' assume "scrape_page net limit sleep_time s = Inr (Continue s')"
    and "int (length (articles s)) < limit"
  then obtain cheques where "process_cheques limit cheques (articles s) (seen_urls s) =
       Inr (articles s', seen_urls s')" and "int (length (articles s)) < limit"
    by (blast dest: scrape_page_Continue_D)
  then have "int (length (articles s')) \<le> limit"
    using process_cheques_limit by blast
  then show "int (length (articles s')) \<le> max limit (int (length (articles st)))"
    by simp
qed

lemma get_html_requests_Some:
  "get_html_requests net url sleep_time n tr = Inr (Some doc, tr')
     \<Longrightarrow> \<exists>attempt status. net url attempt = Returns status doc"
  unfolding get_html_requests_def by (rule get_html_attempts_Some)

lemma scrape_loop_pages:
  assumes run: "scrape_loop net limit max_pages sleep_time st = Inr st'"
    and bound: "\<forall>url attempt status doc. net url attempt = Returns status doc \<longrightarrow>
        length (select doc ''div.Chequeo.Chequeo-fila'') \<le> k \<and>
        length (select doc ''div.view-content .Chequeo'') \<le> k"
  shows "length (articles st') \<le> length (articles st) + nat (max_pages + 1 - page st) * k"
proof -
  let ?I = "\<lambda>s. page st \<le> page s \<and> page s \<le> max (page st) (max_pages + 1) \<and>
      length (articles s) \<le> length (articles st) + nat (page s - page st) * k"
  have "?I st'"
  proof (rule scrape_loop_invariant [OF run, where I = ?I])
    show "?I st" by simp
  next
    fix s s' assume "scrape_page net limit sleep_time s = Inr (Break s')" and "?I s"
    then show "?I s'" by (simp add: scrape_page_Break)
  next
    fix s s' assume cont: "scrape_page net limit sleep_time s = Inr (Continue s')"
      and inv: "?I s" and guard: "page s \<le> max_pages"
    from scrape_page_Continue_D [OF cont] obtain doc tr cheques where
      fetch: "get_html_requests net (BASE_URL_format (page s)) sleep_time 3 (trace s) = Inr (Some doc, tr)"
      and sel: "cheques = select doc ''div.Chequeo.Chequeo-fila'' \<or>
                cheques = select doc ''div.view-content .Chequeo''"
      and proc: "process_cheques limit cheques (articles s) (seen_urls s) =
                   Inr (articles s', seen_urls s')"
      and pg: "page s' = page s + 1"
      by blast
    from get_html_requests_Some [OF fetch] bound sel have "length cheques \<le> k"
      by blast
    with process_cheques_length [OF proc]
    have "length (articles s') \<le> length (articles s) + k" by simp
    moreover have "nat (page s' - page st) = Suc (nat (page s - page st))"
      using inv pg by linarith
    then have "nat (page s' - page st) * k = nat (page s - page st) * k + k"
      by simp
    ultimately show "?I s'" using inv pg guard by simp
  qed
  then have "length (articles st') \<le> length (articles st) + nat (page st' - page st) * k"
    and "page st' \<le> max (page st) (max_pages + 1)" by simp_all
  moreover have "nat (page st' - page st) \<le> nat (max_pages + 1 - page st)"
    using \<open>page st' \<le> max (page st) (max_pages + 1)\<close> by simp
  then have "nat (page st' - page st) * k \<le> nat (max_pages + 1 - page st) * k"
    by (rule mult_le_mono1)
  ultimately show ?thesis by linarith
qed

subsection \<open>Evaluation on concrete inputs\<close>

lemma BASE_URL_format_1: "BASE_URL_format 1 = ''https://colombiacheck.com/chequeos?page=1''"
  by (simp add: BASE_URL_format_def py_str_def str_nat.simps digit_char_def)

lemma BASE_URL_format_2: "BASE_URL_format 2 = ''https://colombiacheck.com/chequeos?page=2''"
  by (simp add: BASE_URL_format_def py_str_def str_nat.simps digit_char_def)

lemma upto_1_3: "[1..3] = [1, 2, 3::int]"
  by (simp add: upto.simps)

lemmas run_simps =
  scrape_colombiacheck_def scrape_loop.simps scrape_page_def BASE_URL_format_1
  BASE_URL_format_2 get_html_requests_def upto_1_3 example_net_def example_soup_def
  example_cheque_def failing_net_def time_sleep_def resolve_link_def href_of_def py_or_def
  startswith_def parse_article_def select_one_call_def selector_literals_def Let_def

lemma example_run_limit_2:
  "scrape_colombiacheck
      (example_net [example_cheque ''/chequeos/1'' ''T1'' ''B1'',
                    example_cheque ''/chequeos/2'' ''T2'' ''B2'',
                    example_cheque ''/chequeos/3'' ''T3'' ''B3'']) 2 1 0 =
     Inr [[''title'' \<mapsto> ''T1'', ''description'' \<mapsto> ''B1'',
           ''url'' \<mapsto> ''https://colombiacheck.com/chequeos/1''],
          [''title'' \<mapsto> ''T2'', ''description'' \<mapsto> ''B2'',
           ''url'' \<mapsto> ''https://colombiacheck.com/chequeos/2'']]"
  by (simp add: run_simps)

lemma example_run_duplicate:
  "scrape_colombiacheck
      (example_net [example_cheque ''/chequeos/1'' ''T1'' ''B1'',
                    example_cheque ''/chequeos/1'' ''T3'' ''B3'',
                    example_cheque ''https://other.site/x'' ''T2'' ''B2'']) 75 30 2 =
     Inr [[''title'' \<mapsto> ''T1'', ''description'' \<mapsto> ''B1'',
           ''url'' \<mapsto> ''https://colombiacheck.com/chequeos/1''],
          [''title'' \<mapsto> ''T2'', ''description'' \<mapsto> ''B2'',
           ''url'' \<mapsto> ''https://other.site/x'']]"
  by (simp add: run_simps)

lemma example_process_duplicate:
  "process_cheques 75
      [example_cheque ''/chequeos/1'' ''T1'' ''B1'',
       example_cheque ''/chequeos/1'' ''T3'' ''B3'',
       example_cheque ''https://other.site/x'' ''T2'' ''B2''] [] {} =
     Inr ([[''title'' \<mapsto> ''T1'', ''description'' \<mapsto> ''B1'',
            ''url'' \<mapsto> ''https://colombiacheck.com/chequeos/1''],
           [''title'' \<mapsto> ''T2'', ''description'' \<mapsto> ''B2'',
            ''url'' \<mapsto> ''https://other.site/x'']],
          {''https://other.site/x'', ''https://colombiacheck.com/chequeos/1''})"
  by (simp add: run_simps insert_commute)

lemma scrape_negative_limit: "scrape_colombiacheck failing_net (- 1) 30 2 = Inr []"
  by (simp add: scrape_colombiacheck_def scrape_loop.simps)

subsection \<open>Auxiliary facts about the file system\<close>

lemma is_dir_files_update [simp]: "is_dir (fs\<lparr>files := f\<rparr>) k = is_dir fs k"
  by (simp add: is_dir_def)

lemma walk_files_update [simp]: "walk (fs\<lparr>files := f\<rparr>) k cs = walk fs k cs"
  by (induction cs arbitrary: k) simp_all

lemma resolve_files_update [simp]: "resolve (fs\<lparr>files := f\<rparr>) path = resolve fs path"
  by (simp add: resolve_def start_of_def)

lemma open_file_files_update [simp]: "open_file (fs\<lparr>files := f\<rparr>) path = open_file fs path"
  by (simp add: open_file_def split: option.splits)

lemma open_file_D:
  "open_file fs path = Inr k \<Longrightarrow> resolve fs path = Some k \<and> \<not> is_dir fs k \<and> k \<notin> denied fs"
  by (auto simp: open_file_def split: option.splits if_splits)

lemma walk_dirs_cong: "dirs fs' = dirs fs \<Longrightarrow> walk fs' k cs = walk fs k cs"
  by (induction cs arbitrary: k) (simp_all add: is_dir_def)

lemma mkdirs_walk:
  "mkdirs fs k cs = Inr fs' \<Longrightarrow>
   cwd fs' = cwd fs \<and> files fs' = files fs \<and> denied fs' = denied fs \<and> dirs fs \<subseteq> dirs fs' \<and>
   (\<exists>k'. walk fs' k cs = Some k' \<and> is_dir fs' k')"
proof (induction fs k cs rule: mkdirs.induct)
  case (1 fs k)
  then show ?case by (simp split: if_splits)
next
  case (2 fs k c cs)
  from "2.prems" have k: "is_dir fs k" by (simp split: if_splits)
  show ?case
  proof (cases "c = [] \<or> c = ''.''")
    case True
    with k "2.prems" have "mkdirs fs k cs = Inr fs'" by auto
    from "2.IH"(1) [OF _ True this] k True show ?thesis
      by (auto simp: is_dir_def)
  next
    case name: False
    show ?thesis
    proof (cases "c = ''..''")
      case True
      with k name "2.prems" have "mkdirs fs (butlast k) cs = Inr fs'" by simp
      from "2.IH"(2) [OF _ name True this] k name True show ?thesis
        by (auto simp: is_dir_def)
    next
      case proper: False
      show ?thesis
      proof (cases "is_dir fs (k @ [c])")
        case True
        with k name proper "2.prems" have "mkdirs fs (k @ [c]) cs = Inr fs'" by simp
        from "2.IH"(3) [OF _ name proper True this] k name proper show ?thesis
          by (auto simp: is_dir_def)
      next
        case False
        with k name proper "2.prems"
        have free: "\<not> (files fs (k @ [c]) \<noteq> None \<or> k @ [c] \<in> denied fs)"
          and run: "mkdirs (fs\<lparr>dirs := insert (k @ [c]) (dirs fs)\<rparr>) (k @ [c]) cs = Inr fs'"
          by (simp_all split: if_splits)
        from "2.IH"(4) [OF _ name proper False free run] k name proper show ?thesis
          by (auto simp: is_dir_def)
      qed
    qed
  qed
qed

lemma ensure_dir_D:
  assumes "ensure_dir path fs = Inr fs'"
  shows "cwd fs' = cwd fs \<and> files fs' = files fs \<and> denied fs' = denied fs \<and>
    dirs fs \<subseteq> dirs fs' \<and> path_exists fs' path"
proof (cases "path_exists fs path")
  case True
  with assms show ?thesis by (simp add: ensure_dir_def)
next
  case False
  with assms have path: "path \<noteq> []"
    and run: "mkdirs fs (start_of fs path) (components path) = Inr fs'"
    by (auto simp: ensure_dir_def os_makedirs_def Let_def split: if_splits)
  from mkdirs_walk [OF run] obtain k' where
    same: "cwd fs' = cwd fs" "files fs' = files fs" "denied fs' = denied fs" "dirs fs \<subseteq> dirs fs'"
    and walk: "walk fs' (start_of fs path) (components path) = Some k'" and dir: "is_dir fs' k'"
    by blast
  from same(1) have "start_of fs' path = start_of fs path" by (simp add: start_of_def)
  with path walk dir have "path_exists fs' path"
    by (simp add: path_exists_def resolve_def)
  with same show ?thesis by simp
qed

lemma path_exists_write:
  "path_exists fs path \<Longrightarrow> path_exists (fs\<lparr>files := (files fs)(k \<mapsto> v)\<rparr>) path"
  by (auto simp: path_exists_def split: option.splits)

lemma components_not_Nil [simp]: "components s \<noteq> []"
  by (induction s) (simp_all split: list.splits)

lemmas fs_eval = ensure_dir_def os_makedirs_def path_exists_def isfile_def file_at_def
  open_file_def resolve_def start_of_def startswith_def endswith_def is_dir_def
  os_path_join_def Let_def

section \<open>The claims\<close>

subsection \<open>C1: the length of the result\<close>

text \<open>
  C1, as stated: for every invocation of \<^verbatim>\<open>scrape_colombiacheck\<close> with \<open>limit\<close> and
  \<open>max_pages\<close>, the returned list has length at most \<open>limit\<close>, and at most \<open>max_pages\<close>
  times the number of containers selectable per page. As stated this fails for a negative
  \<open>limit\<close>: the loop is never entered, the result is the empty list, and its length 0 is
  not at most \<open>-1\<close>.
\<close>

theorem scrape_length_le_limit_counterexample:
  "scrape_colombiacheck failing_net (- 1) 30 2 = Inr [] \<and>
   \<not> int (length ([] :: article list)) \<le> - 1"
  by (simp add: scrape_negative_limit)

text \<open>
  C1, amended: every list that \<^verbatim>\<open>scrape_colombiacheck\<close> returns has length at most
  \<open>max(limit, 0)\<close> (so at most \<open>limit\<close> whenever \<open>limit\<close> is not negative), and, when every
  page the network serves gives at most \<open>k\<close> containers under the primary and under the
  fallback selector, length at most \<open>max(max_pages, 0) * k\<close>.
\<close>

theorem scrape_length_bounds:
  assumes "scrape_colombiacheck net limit max_pages sleep_time = Inr arts"
  shows "int (length arts) \<le> max 0 limit \<and>
    ((\<forall>url attempt status doc. net url attempt = Returns status doc \<longrightarrow>
        length (select doc ''div.Chequeo.Chequeo-fila'') \<le> k \<and>
        length (select doc ''div.view-content .Chequeo'') \<le> k)
     \<longrightarrow> length arts \<le> nat max_pages * k)"
proof -
  let ?init = "\<lparr>articles = [], seen_urls = {}, page = 1, trace = []\<rparr>"
  from assms obtain st where
    run: "scrape_loop net limit max_pages sleep_time ?init = Inr st" and arts: "arts = articles st"
    by (auto simp: scrape_colombiacheck_def split: sum.splits)
  from scrape_loop_limit [OF run] arts have "int (length arts) \<le> max 0 limit"
    by (simp add: max.commute)
  moreover have "length arts \<le> nat max_pages * k"
    if "\<forall>url attempt status doc. net url attempt = Returns status doc \<longrightarrow>
        length (select doc ''div.Chequeo.Chequeo-fila'') \<le> k \<and>
        length (select doc ''div.view-content .Chequeo'') \<le> k"
    using scrape_loop_pages [OF run that] arts by simp
  ultimately show ?thesis by blast
qed

theorem scrape_length_bounds_witness:
  "scrape_colombiacheck
      (example_net [example_cheque ''/chequeos/1'' ''T1'' ''B1'',
                    example_cheque ''/chequeos/2'' ''T2'' ''B2'',
                    example_cheque ''/chequeos/3'' ''T3'' ''B3'']) 2 1 0 =
     Inr [[''title'' \<mapsto> ''T1'', ''description'' \<mapsto> ''B1'',
           ''url'' \<mapsto> ''https://colombiacheck.com/chequeos/1''],
          [''title'' \<mapsto> ''T2'', ''description'' \<mapsto> ''B2'',
           ''url'' \<mapsto> ''https://colombiacheck.com/chequeos/2'']] \<and>
   int (length [[''title'' \<mapsto> ''T1'', ''description'' \<mapsto> ''B1'',
           ''url'' \<mapsto> ''https://colombiacheck.com/chequeos/1''],
          [''title'' \<mapsto> ''T2'', ''description'' \<mapsto> ''B2'',
           ''url'' \<mapsto> ''https://colombiacheck.com/chequeos/2'']]) \<le> max 0 2 \<and>
   length [[''title'' \<mapsto> ''T1'', ''description'' \<mapsto> ''B1'',
           ''url'' \<mapsto> ''https://colombiacheck.com/chequeos/1''],
          [''title'' \<mapsto> ''T2'', ''description'' \<mapsto> ''B2'',
           ''url'' \<mapsto> ''https://colombiacheck.com/chequeos/2'']] \<le> nat 1 * 3"
proof -
  let ?cs = "[example_cheque ''/chequeos/1'' ''T1'' ''B1'',
              example_cheque ''/chequeos/2'' ''T2'' ''B2'',
              example_cheque ''/chequeos/3'' ''T3'' ''B3'']"
  have pages: "\<forall>url attempt status doc. example_net ?cs url attempt = Returns status doc \<longrightarrow>
        length (select doc ''div.Chequeo.Chequeo-fila'') \<le> 3 \<and>
        length (select doc ''div.view-content .Chequeo'') \<le> 3"
    by (auto simp: example_net_def example_soup_def split: if_splits)
  from scrape_length_bounds [OF example_run_limit_2, of 3] pages example_run_limit_2
  show ?thesis by simp
qed

subsection \<open>C2: deduplication by URL\<close>

lemma first_seen_article_head:
  assumes "cheque_link c \<noteq> []" "cheque_link c \<notin> seen"
    and "parse_article c ''h3.Chequeo-texto-titulo'' ''p.Chequeo-texto-parrafo'' = Inr (t, d)"
  shows "first_seen_article (c # cs) seen
           [''title'' \<mapsto> t, ''description'' \<mapsto> d, ''url'' \<mapsto> cheque_link c]"
  unfolding first_seen_article_def
  by (rule exI [of _ 0]) (use assms in simp)

lemma first_seen_article_tail:
  assumes "first_seen_article cs seen' a"
    and "seen \<subseteq> seen'"
    and "cheque_link c = [] \<or> cheque_link c \<in> seen'"
  shows "first_seen_article (c # cs) seen a"
proof -
  from assms(1) obtain i t d where i: "i < length cs"
    and ne: "cheque_link (cs ! i) \<noteq> []" and ns: "cheque_link (cs ! i) \<notin> seen'"
    and first: "\<forall>c' \<in> set (take i cs). cheque_link c' \<noteq> cheque_link (cs ! i)"
    and pa: "parse_article (cs ! i) ''h3.Chequeo-texto-titulo'' ''p.Chequeo-texto-parrafo'' =
          Inr (t, d)"
    and a: "a = [''title'' \<mapsto> t, ''description'' \<mapsto> d, ''url'' \<mapsto> cheque_link (cs ! i)]"
    unfolding first_seen_article_def by blast
  from assms(3) ne ns have "cheque_link c \<noteq> cheque_link (cs ! i)" by auto
  with i ne ns first pa a assms(2) show ?thesis
    unfolding first_seen_article_def
    by (intro exI [of _ "Suc i"] exI [of _ t] exI [of _ d]) auto
qed

lemma first_seen_article_url:
  "first_seen_article cs seen a \<Longrightarrow> \<exists>u. a ''url'' = Some u \<and> u \<noteq> [] \<and> u \<notin> seen"
  unfolding first_seen_article_def by auto

lemma process_cheques_first_seen:
  "process_cheques limit cs arts seen = Inr (arts', seen') \<Longrightarrow>
   \<exists>new. arts' = arts @ new \<and> distinct (map (\<lambda>a. a ''url'') new) \<and>
         seen' = seen \<union> {u. \<exists>a \<in> set new. a ''url'' = Some u} \<and>
         (\<forall>a \<in> set new. first_seen_article cs seen a)"
proof (induction cs arbitrary: arts seen)
  case Nil
  then show ?case by simp
next
  case (Cons c cs)
  from Cons.prems show ?case
  proof (cases rule: process_cheques_Cons_cases)
    case skip
    from Cons.IH [OF skip(2)] obtain new where new: "arts' = arts @ new"
      "distinct (map (\<lambda>a. a ''url'') new)"
      "seen' = seen \<union> {u. \<exists>a \<in> set new. a ''url'' = Some u}"
      "\<forall>a \<in> set new. first_seen_article cs seen a"
      by blast
    from new(4) skip(1) have "\<forall>a \<in> set new. first_seen_article (c # cs) seen a"
      by (blast intro: first_seen_article_tail)
    with new(1-3) show ?thesis by blast
  next
    case (last t d)
    let ?a = "[''title'' \<mapsto> t, ''description'' \<mapsto> d, ''url'' \<mapsto> cheque_link c]"
    have "first_seen_article (c # cs) seen ?a"
      using last(1-3) by (rule first_seen_article_head)
    then have "\<forall>a \<in> set [?a]. first_seen_article (c # cs) seen a"
      by (simp del: fun_upd_apply)
    moreover have "seen' = seen \<union> {u. \<exists>a \<in> set [?a]. a ''url'' = Some u}"
      using last(6) by auto
    moreover have "distinct (map (\<lambda>a. a ''url'') [?a])" by simp
    moreover have "arts' = arts @ [?a]" by (rule last(5))
    ultimately show ?thesis by blast
  next
    case (more t d)
    let ?a = "[''title'' \<mapsto> t, ''description'' \<mapsto> d, ''url'' \<mapsto> cheque_link c]"
    let ?seen = "insert (cheque_link c) seen"
    from Cons.IH [OF more(5)] obtain new where new: "arts' = (arts @ [?a]) @ new"
      "distinct (map (\<lambda>a. a ''url'') new)"
      "seen' = ?seen \<union> {u. \<exists>a \<in> set new. a ''url'' = Some u}"
      "\<forall>a \<in> set new. first_seen_article cs ?seen a"
      by blast
    have head: "first_seen_article (c # cs) seen ?a"
      using more(1-3) by (rule first_seen_article_head)
    have tail: "\<forall>a \<in> set new. first_seen_article (c # cs) seen a"
      using new(4) by (blast intro: first_seen_article_tail [where seen' = ?seen])
    have "?a ''url'' \<notin> (\<lambda>a. a ''url'') ` set new"
      using new(4) by (auto dest!: first_seen_article_url)
    with new(2) have "distinct (map (\<lambda>a. a ''url'') (?a # new))" by simp
    moreover have "arts' = arts @ (?a # new)" using new(1) by simp
    moreover have "seen' = seen \<union> {u. \<exists>a \<in> set (?a # new). a ''url'' = Some u}"
      using new(3) by auto
    moreover have "\<forall>a \<in> set (?a # new). first_seen_article (c # cs) seen a"
      using head tail by simp
    ultimately show ?thesis by blast
  qed
qed

lemma scrape_loop_distinct:
  assumes run: "scrape_loop net limit max_pages sleep_time st = Inr st'"
    and init: "distinct (map (\<lambda>a. a ''url'') (articles st))"
      "\<forall>a \<in> set (articles st). \<exists>u. a ''url'' = Some u \<and> u \<noteq> [] \<and> u \<in> seen_urls st"
  shows "distinct (map (\<lambda>a. a ''url'') (articles st')) \<and>
    (\<forall>a \<in> set (articles st'). \<exists>u. a ''url'' = Some u \<and> u \<noteq> [] \<and> u \<in> seen_urls st')"
proof (rule scrape_loop_invariant [OF run, where I = "\<lambda>s. distinct (map (\<lambda>a. a ''url'') (articles s)) \<and>
    (\<forall>a \<in> set (articles s). \<exists>u. a ''url'' = Some u \<and> u \<noteq> [] \<and> u \<in> seen_urls s)"])
  show "distinct (map (\<lambda>a. a ''url'') (articles st)) \<and>
    (\<forall>a \<in> set (articles st). \<exists>u. a ''url'' = Some u \<and> u \<noteq> [] \<and> u \<in> seen_urls st)"
    using init by simp
next
  fix s s' assume "scrape_page net limit sleep_time s = Inr (Break s')"
    and "distinct (map (\<lambda>a. a ''url'') (articles s)) \<and>
    (\<forall>a \<in> set (articles s). \<exists>u. a ''url'' = Some u \<and> u \<noteq> [] \<and> u \<in> seen_urls s)"
  then show "distinct (map (\<lambda>a. a ''url'') (articles s')) \<and>
    (\<forall>a \<in> set (articles s'). \<exists>u. a ''url'' = Some u \<and> u \<noteq> [] \<and> u \<in> seen_urls s')"
    by (simp add: scrape_page_Break)
next
  fix s s' assume cont: "scrape_page net limit sleep_time s = Inr (Continue s')"
    and inv: "distinct (map (\<lambda>a. a ''url'') (articles s)) \<and>
    (\<forall>a \<in> set (articles s). \<exists>u. a ''url'' = Some u \<and> u \<noteq> [] \<and> u \<in> seen_urls s)"
  from scrape_page_Continue_D [OF cont] obtain cheques where
    "process_cheques limit cheques (articles s) (seen_urls s) = Inr (articles s', seen_urls s')"
    by blast
  from process_cheques_first_seen [OF this] obtain new where
    new: "articles s' = articles s @ new" "distinct (map (\<lambda>a. a ''url'') new)"
      "seen_urls s' = seen_urls s \<union> {u. \<exists>a \<in> set new. a ''url'' = Some u}"
      "\<forall>a \<in> set new. first_seen_article cheques (seen_urls s) a"
    by blast
  have fresh: "\<forall>a \<in> set new. \<exists>u. a ''url'' = Some u \<and> u \<noteq> [] \<and> u \<notin> seen_urls s"
    using new(4) by (blast dest: first_seen_article_url)
  have "(\<lambda>a. a ''url'') ` set (articles s) \<inter> (\<lambda>a. a ''url'') ` set new = {}"
    using inv fresh by fastforce
  with inv new(1,2) have "distinct (map (\<lambda>a. a ''url'') (articles s'))" by simp
  moreover have "\<forall>a \<in> set (articles s'). \<exists>u. a ''url'' = Some u \<and> u \<noteq> [] \<and> u \<in> seen_urls s'"
  proof
    fix a assume "a \<in> set (articles s')"
    with new(1) consider "a \<in> set (articles s)" | "a \<in> set new" by auto
    then show "\<exists>u. a ''url'' = Some u \<and> u \<noteq> [] \<and> u \<in> seen_urls s'"
    proof cases
      case 1
      with inv obtain u where "a ''url'' = Some u" "u \<noteq> []" "u \<in> seen_urls s" by blast
      with new(3) show ?thesis by blast
    next
      case 2
      with fresh obtain u where "a ''url'' = Some u" "u \<noteq> []" by blast
      with 2 new(3) show ?thesis by blast
    qed
  qed
  ultimately show "distinct (map (\<lambda>a. a ''url'') (articles s')) \<and>
    (\<forall>a \<in> set (articles s'). \<exists>u. a ''url'' = Some u \<and> u \<noteq> [] \<and> u \<in> seen_urls s')"
    by simp
qed

lemma first_seen_Nil [simp]: "first_seen [] seen = []"
  by (simp add: first_seen_def)

lemma first_seen_Cons:
  "first_seen (c # cs) seen =
     (if cheque_link c = [] \<or> cheque_link c \<in> seen then first_seen cs seen
      else c # first_seen cs (insert (cheque_link c) seen))"
proof -
  let ?P = "\<lambda>xs sn i. cheque_link (xs ! i) \<noteq> [] \<and> cheque_link (xs ! i) \<notin> sn \<and>
                    cheque_link (xs ! i) \<notin> cheque_link ` set (take i xs)"
  have upt: "[0..<length (c # cs)] = 0 # map Suc [0..<length cs]"
    by (simp add: upt_conv_Cons map_Suc_upt del: upt_Suc)
  have split: "first_seen (c # cs) seen =
      (if ?P (c # cs) seen 0 then [c] else []) @
      map (\<lambda>i. cs ! i) (filter (\<lambda>i. ?P (c # cs) seen (Suc i)) [0..<length cs])"
    unfolding first_seen_def upt by (simp add: filter_map comp_def)
  show ?thesis
  proof (cases "cheque_link c = [] \<or> cheque_link c \<in> seen")
    case True
    then have "filter (\<lambda>i. ?P (c # cs) seen (Suc i)) [0..<length cs] =
        filter (?P cs seen) [0..<length cs]"
      by (intro filter_cong refl) auto
    with True split show ?thesis by (auto simp: first_seen_def)
  next
    case False
    then have "filter (\<lambda>i. ?P (c # cs) seen (Suc i)) [0..<length cs] =
        filter (?P cs (insert (cheque_link c) seen)) [0..<length cs]"
      by (intro filter_cong refl) auto
    with False split show ?thesis by (auto simp: first_seen_def)
  qed
qed

lemma process_cheques_first_seen_eq:
  "process_cheques limit cs arts seen =
     Inr (arts @ map cheque_article
                   (take (max 1 (nat (limit - int (length arts)))) (first_seen cs seen)),
          seen \<union> cheque_link `
                   set (take (max 1 (nat (limit - int (length arts)))) (first_seen cs seen)))"
proof (induction cs arbitrary: arts seen)
  case Nil
  show ?case by simp
next
  case (Cons c cs)
  let ?n = "max 1 (nat (limit - int (length arts)))"
  show ?case
  proof (cases "cheque_link c = [] \<or> cheque_link c \<in> seen")
    case True
    then have "process_cheques limit (c # cs) arts seen = process_cheques limit cs arts seen"
      by (cases "select_one c ''a''") (auto simp: cheque_link_def Let_def)
    with True Cons.IH [of arts seen] show ?thesis by (simp add: first_seen_Cons)
  next
    case False
    then obtain a_tag where a_tag: "select_one c ''a'' = Some a_tag"
      and link: "resolve_link (href_of a_tag) = cheque_link c"
      by (cases "select_one c ''a''") (auto simp: cheque_link_def)
    let ?seen = "insert (cheque_link c) seen"
    let ?arts = "arts @ [cheque_article c]"
    have step: "process_cheques limit (c # cs) arts seen =
        (if limit \<le> int (length ?arts) then Inr (?arts, ?seen)
         else process_cheques limit cs ?arts ?seen)"
      using False a_tag link
      by (simp add: parse_article_literals cheque_article_def Let_def)
    have fs: "first_seen (c # cs) seen = c # first_seen cs ?seen"
      using False by (simp add: first_seen_Cons)
    show ?thesis
    proof (cases "limit \<le> int (length ?arts)")
      case True
      then have "?n = 1" by simp
      with True step fs show ?thesis by simp
    next
      case nolimit: False
      then have n: "?n = Suc (max 1 (nat (limit - int (length ?arts))))" by simp
      from nolimit step Cons.IH [of ?arts ?seen] show ?thesis
        unfolding n fs by simp
    qed
  qed
qed

text \<open>
  C2: in every list that \<^verbatim>\<open>scrape_colombiacheck\<close> returns the \<open>url\<close> values are pairwise
  distinct and none is empty. Whenever the inner loop processes the containers \<open>cs\<close> of a
  page, it only appends, and each article it appends comes from the first container of
  \<open>cs\<close> with that resolved URL. And it appends exactly these: the articles of the
  containers of \<open>cs\<close>, in document order, whose resolved URL is not empty, not seen before
  and not the URL of an earlier container of \<open>cs\<close> (\<open>first_seen\<close>), up to the one with which
  the list reaches \<open>limit\<close>; a container that is skipped does not end the loop, and the
  seen-set grows by the URLs of the articles appended.
\<close>

theorem scrape_urls_distinct:
  assumes "scrape_colombiacheck net limit max_pages sleep_time = Inr arts"
  shows "distinct (map (\<lambda>a. a ''url'') arts) \<and>
    (\<forall>a \<in> set arts. \<exists>u. a ''url'' = Some u \<and> u \<noteq> []) \<and>
    (\<forall>cs arts0 seen arts' seen'.
        process_cheques limit cs arts0 seen = Inr (arts', seen') \<longrightarrow>
        (\<exists>new. arts' = arts0 @ new \<and> distinct (map (\<lambda>a. a ''url'') new) \<and>
           (\<forall>a \<in> set new. first_seen_article cs seen a))) \<and>
    (\<forall>cs arts0 seen.
        process_cheques limit cs arts0 seen =
          Inr (arts0 @ map cheque_article
                         (take (max 1 (nat (limit - int (length arts0)))) (first_seen cs seen)),
               seen \<union> cheque_link `
                 set (take (max 1 (nat (limit - int (length arts0)))) (first_seen cs seen))))"
proof -
  let ?init = "\<lparr>articles = [], seen_urls = {}, page = 1, trace = []\<rparr>"
  from assms obtain st where
    run: "scrape_loop net limit max_pages sleep_time ?init = Inr st" and arts: "arts = articles st"
    by (auto simp: scrape_colombiacheck_def split: sum.splits)
  from scrape_loop_distinct [OF run] arts
  have d: "distinct (map (\<lambda>a. a ''url'') arts)"
    and n: "\<forall>a \<in> set arts. \<exists>u. a ''url'' = Some u \<and> u \<noteq> []"
    by auto
  have f: "\<forall>cs arts0 seen arts' seen'.
        process_cheques limit cs arts0 seen = Inr (arts', seen') \<longrightarrow>
        (\<exists>new. arts' = arts0 @ new \<and> distinct (map (\<lambda>a. a ''url'') new) \<and>
           (\<forall>a \<in> set new. first_seen_article cs seen a))"
  proof (intro allI impI)
    fix cs arts0 seen arts' seen'
    assume "process_cheques limit cs arts0 seen = Inr (arts', seen')"
    from process_cheques_first_seen [OF this]
    show "\<exists>new. arts' = arts0 @ new \<and> distinct (map (\<lambda>a. a ''url'') new) \<and>
           (\<forall>a \<in> set new. first_seen_article cs seen a)"
      by blast
  qed
  have e: "\<forall>cs arts0 seen.
        process_cheques limit cs arts0 seen =
          Inr (arts0 @ map cheque_article
                         (take (max 1 (nat (limit - int (length arts0)))) (first_seen cs seen)),
               seen \<union> cheque_link `
                 set (take (max 1 (nat (limit - int (length arts0)))) (first_seen cs seen)))"
    by (intro allI) (rule process_cheques_first_seen_eq)
  from d n f e show ?thesis by (intro conjI)
qed

theorem scrape_urls_distinct_witness:
  "scrape_colombiacheck
      (example_net [example_cheque ''/chequeos/1'' ''T1'' ''B1'',
                    example_cheque ''/chequeos/1'' ''T3'' ''B3'',
                    example_cheque ''https://other.site/x'' ''T2'' ''B2'']) 75 30 2 =
     Inr [[''title'' \<mapsto> ''T1'', ''description'' \<mapsto> ''B1'',
           ''url'' \<mapsto> ''https://colombiacheck.com/chequeos/1''],
          [''title'' \<mapsto> ''T2'', ''description'' \<mapsto> ''B2'',
           ''url'' \<mapsto> ''https://other.site/x'']] \<and>
   distinct [Some ''https://colombiacheck.com/chequeos/1'', Some ''https://other.site/x''] \<and>
   first_seen_article
      [example_cheque ''/chequeos/1'' ''T1'' ''B1'',
       example_cheque ''/chequeos/1'' ''T3'' ''B3'',
       example_cheque ''https://other.site/x'' ''T2'' ''B2''] {}
      [''title'' \<mapsto> ''T1'', ''description'' \<mapsto> ''B1'',
       ''url'' \<mapsto> ''https://colombiacheck.com/chequeos/1''] \<and>
   map cheque_article
     (take 75 (first_seen
        [example_cheque ''/chequeos/1'' ''T1'' ''B1'',
         example_cheque ''/chequeos/1'' ''T3'' ''B3'',
         example_cheque ''https://other.site/x'' ''T2'' ''B2''] {})) =
     [[''title'' \<mapsto> ''T1'', ''description'' \<mapsto> ''B1'',
       ''url'' \<mapsto> ''https://colombiacheck.com/chequeos/1''],
      [''title'' \<mapsto> ''T2'', ''description'' \<mapsto> ''B2'',
       ''url'' \<mapsto> ''https://other.site/x'']]"
proof -
  let ?cs = "[example_cheque ''/chequeos/1'' ''T1'' ''B1'',
       example_cheque ''/chequeos/1'' ''T3'' ''B3'',
       example_cheque ''https://other.site/x'' ''T2'' ''B2'']"
  let ?a1 = "[''title'' \<mapsto> ''T1'', ''description'' \<mapsto> ''B1'',
       ''url'' \<mapsto> ''https://colombiacheck.com/chequeos/1'']"
  let ?a2 = "[''title'' \<mapsto> ''T2'', ''description'' \<mapsto> ''B2'',
           ''url'' \<mapsto> ''https://other.site/x'']"
  note run_facts = scrape_urls_distinct [OF example_run_duplicate]
  from run_facts have "distinct (map (\<lambda>a. a ''url'') [?a1, ?a2])" by (rule conjunct1)
  then have d: "distinct [Some ''https://colombiacheck.com/chequeos/1'', Some ''https://other.site/x'']"
    by simp
  from run_facts have "\<forall>cs arts0 seen arts' seen'.
        process_cheques 75 cs arts0 seen = Inr (arts', seen') \<longrightarrow>
        (\<exists>new. arts' = arts0 @ new \<and> distinct (map (\<lambda>a. a ''url'') new) \<and>
           (\<forall>a \<in> set new. first_seen_article cs seen a))"
    by (elim conjE)
  with example_process_duplicate
  obtain new where new: "[?a1, ?a2] = [] @ new"
    and first: "\<forall>a \<in> set new. first_seen_article ?cs {} a"
    by blast
  from new have "?a1 \<in> set new" by (metis append_Nil list.set_intros(1))
  with first have f: "first_seen_article ?cs {} ?a1" by blast
  from run_facts have "\<forall>cs arts0 seen.
        process_cheques 75 cs arts0 seen =
          Inr (arts0 @ map cheque_article
                         (take (max 1 (nat (75 - int (length arts0)))) (first_seen cs seen)),
               seen \<union> cheque_link `
                 set (take (max 1 (nat (75 - int (length arts0)))) (first_seen cs seen)))"
    by (elim conjE)
  then have "process_cheques 75 ?cs [] {} =
          Inr ([] @ map cheque_article
                         (take (max 1 (nat (75 - int (length ([] :: article list)))))
                            (first_seen ?cs {})),
               {} \<union> cheque_link `
                 set (take (max 1 (nat (75 - int (length ([] :: article list)))))
                        (first_seen ?cs {})))"
    by (elim allE)
  with example_process_duplicate
  have e: "map cheque_article (take 75 (first_seen ?cs {})) = [?a1, ?a2]"
    by simp
  from example_run_duplicate d f e show ?thesis by (intro conjI)
qed

subsection \<open>C3: exhausted retries of the Fetcher\<close>

lemma get_html_attempts_all_fail:
  assumes "\<forall>attempt \<in> set as.
      0 \<le> attempt \<and>
      (net url attempt = Raises RequestException \<or>
       (\<exists>status doc. net url attempt = Returns status doc \<and>
          \<not> (200 \<le> status \<and> status < 300)))"
  shows "get_html_attempts net url sleep_time as tr =
    Inr (None, tr @ concat (map (\<lambda>attempt. [Get url, Sleep (1 / 2 * of_int attempt)]) as))"
  using assms
proof (induction as arbitrary: tr)
  case Nil
  then show ?case by simp
next
  case (Cons a as)
  from Cons.prems have a: "0 \<le> a"
    and fail: "net url a = Raises RequestException \<or>
       (\<exists>status doc. net url a = Returns status doc \<and> \<not> (200 \<le> status \<and> status < 300))"
    and rest: "\<forall>attempt \<in> set as.
      0 \<le> attempt \<and>
      (net url attempt = Raises RequestException \<or>
       (\<exists>status doc. net url attempt = Returns status doc \<and>
          \<not> (200 \<le> status \<and> status < 300)))"
    by simp_all
  from a have sleep: "time_sleep (1 / 2 * of_int a) (tr @ [Get url]) =
      Inr (tr @ [Get url, Sleep (1 / 2 * of_int a)])"
    by (simp add: time_sleep_def)
  from fail show ?case
  proof
    assume "net url a = Raises RequestException"
    with sleep Cons.IH [OF rest] show ?thesis by simp
  next
    assume "\<exists>status doc. net url a = Returns status doc \<and> \<not> (200 \<le> status \<and> status < 300)"
    then obtain status doc where "net url a = Returns status doc"
      "\<not> (200 \<le> status \<and> status < 300)" by blast
    with sleep Cons.IH [OF rest] show ?thesis by auto
  qed
qed

text \<open>
  C3: if each of the attempts \<open>1, ..., max_retries\<close> on a URL fails (the request raises a
  \<open>RequestException\<close>, or the response has a status outside \<open>[200, 300)\<close>), then
  \<^verbatim>\<open>get_html_requests\<close> returns \<open>None\<close>, no exception leaves it, and what it did is exactly:
  for each attempt in turn, one request and then a sleep of \<open>0.5 * attempt\<close> seconds
  (0.5, 1.0, 1.5, ...).
\<close>

theorem get_html_requests_exhausted:
  assumes "\<forall>attempt \<in> set [1..max_retries].
      net url attempt = Raises RequestException \<or>
      (\<exists>status doc. net url attempt = Returns status doc \<and>
         \<not> (200 \<le> status \<and> status < 300))"
  shows "get_html_requests net url sleep_time max_retries tr =
    Inr (None,
      tr @ concat (map (\<lambda>attempt. [Get url, Sleep (1 / 2 * of_int attempt)]) [1..max_retries]))"
  unfolding get_html_requests_def
  by (rule get_html_attempts_all_fail) (use assms in auto)

theorem get_html_requests_exhausted_witness:
  "get_html_requests failing_net ''https://colombiacheck.com/chequeos?page=1'' 2 3 [] =
    Inr (None,
      [Get ''https://colombiacheck.com/chequeos?page=1'', Sleep (1 / 2),
       Get ''https://colombiacheck.com/chequeos?page=1'', Sleep 1,
       Get ''https://colombiacheck.com/chequeos?page=1'', Sleep (3 / 2)])"
  using get_html_requests_exhausted
    [of 3 failing_net "''https://colombiacheck.com/chequeos?page=1''" 2 "[]"]
  by (simp add: failing_net_def upto_1_3)

subsection \<open>C4: a failed fetch ends the run\<close>

lemma scrape_page_fetch_None:
  assumes "get_html_requests net (BASE_URL_format (page st)) sleep_time 3 (trace st) = Inr (None, tr)"
  shows "scrape_page net limit sleep_time st = Inr (Break (st\<lparr>trace := tr\<rparr>))"
  using assms by (simp add: scrape_page_def)

text \<open>
  C4: when the loop condition holds and the Fetcher returns \<open>None\<close> for the current page,
  the loop ends at once: it returns the state it had, with the same articles and the same
  page number (only the trace of the failed fetch is added). In particular, when the three
  attempts on page 1 all fail, \<^verbatim>\<open>scrape_colombiacheck\<close> returns the empty list.
\<close>

theorem scrape_stops_on_failed_fetch:
  "(int (length (articles st)) < limit \<and> page st \<le> max_pages \<and>
    get_html_requests net (BASE_URL_format (page st)) sleep_time 3 (trace st) = Inr (None, tr)
    \<longrightarrow> scrape_loop net limit max_pages sleep_time st = Inr (st\<lparr>trace := tr\<rparr>)) \<and>
   ((\<forall>attempt \<in> set [1..3].
       net (BASE_URL_format 1) attempt = Raises RequestException \<or>
       (\<exists>status doc. net (BASE_URL_format 1) attempt = Returns status doc \<and>
          \<not> (200 \<le> status \<and> status < 300)))
    \<longrightarrow> scrape_colombiacheck net limit max_pages sleep_time = Inr [])"
proof (intro conjI impI)
  assume "int (length (articles st)) < limit \<and> page st \<le> max_pages \<and>
    get_html_requests net (BASE_URL_format (page st)) sleep_time 3 (trace st) = Inr (None, tr)"
  then show "scrape_loop net limit max_pages sleep_time st = Inr (st\<lparr>trace := tr\<rparr>)"
    by (simp add: scrape_loop.simps scrape_page_fetch_None)
next
  let ?init = "\<lparr>articles = [], seen_urls = {}, page = 1, trace = []\<rparr>"
  assume "\<forall>attempt \<in> set [1..3].
       net (BASE_URL_format 1) attempt = Raises RequestException \<or>
       (\<exists>status doc. net (BASE_URL_format 1) attempt = Returns status doc \<and>
          \<not> (200 \<le> status \<and> status < 300))"
  then have "\<forall>attempt \<in> set [1..3]. 0 \<le> attempt \<and>
       (net (BASE_URL_format 1) attempt = Raises RequestException \<or>
       (\<exists>status doc. net (BASE_URL_format 1) attempt = Returns status doc \<and>
          \<not> (200 \<le> status \<and> status < 300)))"
    by auto
  from get_html_attempts_all_fail
    [where as = "[1..3]" and net = net and url = "BASE_URL_format 1", OF this]
  have "\<exists>tr. get_html_requests net (BASE_URL_format (page ?init)) sleep_time 3 (trace ?init) =
    Inr (None, tr)"
    by (simp add: get_html_requests_def)
  then obtain tr where
    "scrape_page net limit sleep_time ?init = Inr (Break (?init\<lparr>trace := tr\<rparr>))"
    using scrape_page_fetch_None by blast
  then have "\<exists>st. scrape_loop net limit max_pages sleep_time ?init = Inr st \<and> articles st = []"
    by (simp add: scrape_loop.simps)
  then show "scrape_colombiacheck net limit max_pages sleep_time = Inr []"
    by (auto simp: scrape_colombiacheck_def)
qed

theorem scrape_stops_on_failed_fetch_witness:
  "scrape_loop failing_net 75 30 2 \<lparr>articles = [], seen_urls = {}, page = 1, trace = []\<rparr> =
     Inr \<lparr>articles = [], seen_urls = {}, page = 1,
          trace = [Get ''https://colombiacheck.com/chequeos?page=1'', Sleep (1 / 2),
                   Get ''https://colombiacheck.com/chequeos?page=1'', Sleep 1,
                   Get ''https://colombiacheck.com/chequeos?page=1'', Sleep (3 / 2)]\<rparr> \<and>
   scrape_colombiacheck failing_net 75 30 2 = Inr []"
proof -
  let ?init = "\<lparr>articles = [], seen_urls = {}, page = 1, trace = []\<rparr>"
  let ?tr = "[Get ''https://colombiacheck.com/chequeos?page=1'', Sleep (1 / 2),
              Get ''https://colombiacheck.com/chequeos?page=1'', Sleep 1,
              Get ''https://colombiacheck.com/chequeos?page=1'', Sleep (3 / 2)]"
  have fetch: "get_html_requests failing_net (BASE_URL_format (page ?init)) 2 3 (trace ?init) =
      Inr (None, ?tr)"
    by (simp add: get_html_requests_def failing_net_def upto_1_3 time_sleep_def BASE_URL_format_1)
  have fails: "\<forall>attempt \<in> set [1..3].
       failing_net (BASE_URL_format 1) attempt = Raises RequestException \<or>
       (\<exists>status doc. failing_net (BASE_URL_format 1) attempt = Returns status doc \<and>
          \<not> (200 \<le> status \<and> status < 300))"
    by (simp add: failing_net_def)
  from scrape_stops_on_failed_fetch [of ?init 75 30 failing_net 2 ?tr] fetch fails
  show ?thesis by simp
qed

subsection \<open>C5: resolving the link of a container\<close>

lemma href_of_Some: "attrs a_tag ''href'' = Some href \<Longrightarrow> href_of a_tag = href"
  by (simp add: href_of_def py_or_def)

lemma process_cheques_single:
  assumes "cheque_link cheque \<noteq> []"
    and "parse_article cheque ''h3.Chequeo-texto-titulo'' ''p.Chequeo-texto-parrafo'' =
           Inr (title, description)"
  shows "process_cheques limit [cheque] [] {} =
      Inr ([[''title'' \<mapsto> title, ''description'' \<mapsto> description,
             ''url'' \<mapsto> cheque_link cheque]], {cheque_link cheque})"
  using assms
  by (cases "select_one cheque ''a''") (simp_all add: cheque_link_def Let_def)

lemma process_cheques_single_empty:
  assumes "cheque_link cheque = []"
  shows "process_cheques limit [cheque] [] {} = Inr ([], {})"
  using assms
  by (cases "select_one cheque ''a''") (simp_all add: cheque_link_def Let_def)

text \<open>
  C5, as stated: for every container's href, if the href does not start with a scheme
  prefix the Collector prepends the base origin, and an href that carries a scheme is left
  unchanged. As stated this fails twice. The empty href (\<^verbatim>\<open><a href="">\<close>) starts with no
  scheme, and the guard \<^verbatim>\<open>if link and ...\<close> leaves it empty instead of turning it into the
  base origin, so the container is skipped. And the test is for the four characters
  \<open>http\<close>, so an href with another scheme, such as \<open>ftp://other.site/x\<close>, is changed.
\<close>

theorem resolve_link_counterexample:
  "\<not> startswith [] ''http'' \<and>
   resolve_link [] \<noteq> ''https://colombiacheck.com'' @ [] \<and>
   process_cheques 75 [example_cheque [] ''T'' ''B''] [] {} = Inr ([], {}) \<and>
   resolve_link ''ftp://other.site/x'' \<noteq> ''ftp://other.site/x''"
  by (simp add: startswith_def resolve_link_def example_cheque_def href_of_def py_or_def)

text \<open>
  C5, amended: for a container whose anchor has the href \<open>href\<close>, the resolved URL is
  \<open>href\<close> itself when \<open>href\<close> starts with the four characters \<open>http\<close>, the base origin
  \<open>https://colombiacheck.com\<close> followed by \<open>href\<close> when \<open>href\<close> is not empty and does not
  start with \<open>http\<close>, and empty when \<open>href\<close> is empty. A container with a non-empty href
  gives an article with that resolved URL; one with an empty href gives none.
\<close>

theorem resolve_link_cases:
  assumes "select_one cheque ''a'' = Some a_tag" and "attrs a_tag ''href'' = Some href"
  shows "cheque_link cheque =
           (if href = [] then []
            else if startswith href ''http'' then href
            else ''https://colombiacheck.com'' @ href) \<and>
    (href \<noteq> [] \<longrightarrow>
       (\<exists>title description.
          parse_article cheque ''h3.Chequeo-texto-titulo'' ''p.Chequeo-texto-parrafo'' =
            Inr (title, description) \<and>
          process_cheques limit [cheque] [] {} =
            Inr ([[''title'' \<mapsto> title, ''description'' \<mapsto> description,
                   ''url'' \<mapsto> cheque_link cheque]], {cheque_link cheque}))) \<and>
    (href = [] \<longrightarrow> process_cheques limit [cheque] [] {} = Inr ([], {}))"
proof -
  from assms have link: "cheque_link cheque =
           (if href = [] then []
            else if startswith href ''http'' then href
            else ''https://colombiacheck.com'' @ href)"
    by (simp add: cheque_link_def href_of_Some resolve_link_def)
  obtain title description where
    pa: "parse_article cheque ''h3.Chequeo-texto-titulo'' ''p.Chequeo-texto-parrafo'' =
           Inr (title, description)"
    by (simp add: parse_article_literals)
  have "process_cheques limit [cheque] [] {} =
            Inr ([[''title'' \<mapsto> title, ''description'' \<mapsto> description,
                   ''url'' \<mapsto> cheque_link cheque]], {cheque_link cheque})"
    if "href \<noteq> []"
    using that link by (intro process_cheques_single pa) simp
  moreover have "process_cheques limit [cheque] [] {} = Inr ([], {})" if "href = []"
    using that link by (intro process_cheques_single_empty) simp
  ultimately show ?thesis using link pa by blast
qed

theorem resolve_link_cases_witness:
  "cheque_link (example_cheque ''/chequeos/123'' ''T'' ''B'') =
     ''https://colombiacheck.com/chequeos/123'' \<and>
   cheque_link (example_cheque ''https://other.site/x'' ''T'' ''B'') = ''https://other.site/x'' \<and>
   process_cheques 75 [example_cheque [] ''T'' ''B''] [] {} = Inr ([], {})"
  using resolve_link_cases [of "example_cheque ''/chequeos/123'' ''T'' ''B''"
      "\<lparr>attrs = [''href'' \<mapsto> ''/chequeos/123''], stripped_text = []\<rparr>" "''/chequeos/123''" 75]
    resolve_link_cases [of "example_cheque ''https://other.site/x'' ''T'' ''B''"
      "\<lparr>attrs = [''href'' \<mapsto> ''https://other.site/x''], stripped_text = []\<rparr>"
      "''https://other.site/x''" 75]
    resolve_link_cases [of "example_cheque [] ''T'' ''B''"
      "\<lparr>attrs = [''href'' \<mapsto> []], stripped_text = []\<rparr>" "[]" 75]
  by (simp add: example_cheque_def startswith_def)

subsection \<open>C6 and C7: the CSV sink\<close>

lemma write_rows_map:
  "write_rows portal veracidad arts csvfile =
     csvfile @ map (\<lambda>a. Row (csv_row portal veracidad a)) arts"
  by (induction arts arbitrary: csvfile) simp_all

lemma save_articles_csv_D:
  assumes "save_articles_csv arts label portal base_dir filename fs = Inr fs'"
  shows "\<exists>fs0 f.
    ensure_dir base_dir fs = Inr fs0 \<and>
    open_file fs0 (os_path_join base_dir filename) = Inr f \<and>
    fs' = fs0\<lparr>files := (files fs0)(f \<mapsto>
      (case files fs0 f of None \<Rightarrow> [] | Some pieces \<Rightarrow> pieces) @
      (if isfile fs0 (os_path_join base_dir filename) then [] else [Row csv_header]) @
      map (\<lambda>a. Row (csv_row portal (veracidad_of label) a)) arts)\<rparr>"
  using assms
  by (auto simp: save_articles_csv_def Let_def write_rows_map split: sum.splits)

lemma file_at_written:
  assumes "open_file fs path = Inr f"
  shows "file_at (fs\<lparr>files := (files fs)(f \<mapsto> v)\<rparr>) path = Some v"
  using open_file_D [OF assms] by (simp add: file_at_def)

lemma csv_row_not_header: "csv_row portal veracidad a \<noteq> csv_header"
  by (simp add: csv_row_def csv_header_def)

lemma py_lower_examples:
  "py_lower ''Verdad'' = ''verdad''" "py_lower ''VERDAD'' = ''verdad''"
  "py_lower ''verdad'' = ''verdad''" "py_lower ''FALSO'' = ''falso''"
  "py_lower ''Falso'' = ''falso''" "py_lower ''falso'' = ''falso''"
  by (simp_all add: py_lower_def lower_char_def)

lemma example_ensure_dir:
  "ensure_dir ''data_scraped'' empty_fs =
     Inr (empty_fs\<lparr>dirs := {[''work'', ''data_scraped''], [''work'']}\<rparr>)"
  by (simp add: fs_eval empty_fs_def)

lemma example_csv_falso:
  "save_articles_csv
      [[''title'' \<mapsto> ''T1'', ''description'' \<mapsto> ''B1'', ''url'' \<mapsto> ''u1'']]
      ''Falso'' ''colombiaCheck'' ''data_scraped'' ''noticiasColombiaCheck.csv'' empty_fs =
   Inr (empty_fs\<lparr>dirs := {[''work'', ''data_scraped''], [''work'']},
          files := [[''work'', ''data_scraped'', ''noticiasColombiaCheck.csv''] \<mapsto>
            [Row csv_header,
             Row [Str ''colombiaCheck'', Str ''T1'', Str ''B1'', Str ''u1'', Num 0]]]\<rparr>)"
  unfolding save_articles_csv_def example_ensure_dir
  by (simp add: fs_eval empty_fs_def veracidad_of_def py_lower_examples csv_row_def
        dict_get_def)

lemma example_csv_empty_base_dir:
  "save_articles_csv arts ''falso'' ''colombiaCheck'' [] ''noticiasColombiaCheck.csv'' fs =
     Inl OSError"
  by (simp add: save_articles_csv_def ensure_dir_def os_makedirs_def path_exists_def
        resolve_def Let_def)

text \<open>
  C6: the veracity flag that the CSV sink writes is 1 when the label is the truth value
  \<open>verdad\<close> and 0 when it is the falsehood value \<open>falso\<close>, in any letter case: the label is
  lower-cased before it is compared, so two labels that differ only in letter case get
  the same flag. (The flag is 1 exactly when the lower-cased label is \<open>verdad\<close>.) Every
  row that a call of the sink appends ends with the flag of the call's label.
\<close>

theorem veracidad_flag:
  "(py_lower label = ''verdad'' \<longrightarrow> veracidad_of label = 1) \<and>
   (py_lower label = ''falso'' \<longrightarrow> veracidad_of label = 0) \<and>
   (py_lower label = py_lower label' \<longrightarrow> veracidad_of label = veracidad_of label') \<and>
   veracidad_of label = (if py_lower label = ''verdad'' then 1 else 0) \<and>
   (save_articles_csv arts label portal base_dir filename fs = Inr fs' \<longrightarrow>
      (\<exists>before.
         file_at fs' (os_path_join base_dir filename) =
           Some (before @ map (\<lambda>a. Row (csv_row portal (veracidad_of label) a)) arts))) \<and>
   (\<forall>a \<in> set arts. last (csv_row portal (veracidad_of label) a) = Num (veracidad_of label))"
proof -
  have "\<exists>before.
         file_at fs' (os_path_join base_dir filename) =
           Some (before @ map (\<lambda>a. Row (csv_row portal (veracidad_of label) a)) arts)"
    if "save_articles_csv arts label portal base_dir filename fs = Inr fs'"
  proof -
    from save_articles_csv_D [OF that] obtain fs0 f where
      "open_file fs0 (os_path_join base_dir filename) = Inr f"
      and "fs' = fs0\<lparr>files := (files fs0)(f \<mapsto>
        (case files fs0 f of None \<Rightarrow> [] | Some pieces \<Rightarrow> pieces) @
        (if isfile fs0 (os_path_join base_dir filename) then [] else [Row csv_header]) @
        map (\<lambda>a. Row (csv_row portal (veracidad_of label) a)) arts)\<rparr>"
      by blast
    then have "file_at fs' (os_path_join base_dir filename) =
        Some (((case files fs0 f of None \<Rightarrow> [] | Some pieces \<Rightarrow> pieces) @
        (if isfile fs0 (os_path_join base_dir filename) then [] else [Row csv_header])) @
        map (\<lambda>a. Row (csv_row portal (veracidad_of label) a)) arts)"
      by (simp add: file_at_written)
    then show ?thesis by (rule exI)
  qed
  moreover have "veracidad_of label = (if py_lower label = ''verdad'' then 1 else 0)"
    by (simp add: veracidad_of_def)
  moreover have "\<forall>a \<in> set arts.
      last (csv_row portal (veracidad_of label) a) = Num (veracidad_of label)"
    by (simp add: csv_row_def)
  ultimately show ?thesis by (auto simp: veracidad_of_def)
qed

theorem veracidad_flag_witness:
  "veracidad_of ''Verdad'' = 1 \<and> veracidad_of ''VERDAD'' = 1 \<and> veracidad_of ''Falso'' = 0 \<and>
   veracidad_of ''FALSO'' = 0 \<and>
   file_at
     (empty_fs\<lparr>dirs := {[''work'', ''data_scraped''], [''work'']},
          files := [[''work'', ''data_scraped'', ''noticiasColombiaCheck.csv''] \<mapsto>
            [Row csv_header,
             Row [Str ''colombiaCheck'', Str ''T1'', Str ''B1'', Str ''u1'', Num 0]]]\<rparr>)
     ''data_scraped/noticiasColombiaCheck.csv'' =
   Some [Row csv_header, Row [Str ''colombiaCheck'', Str ''T1'', Str ''B1'', Str ''u1'', Num 0]]"
proof -
  let ?a = "[''title'' \<mapsto> ''T1'', ''description'' \<mapsto> ''B1'', ''url'' \<mapsto> ''u1'']"
  let ?fs = "empty_fs\<lparr>dirs := {[''work'', ''data_scraped''], [''work'']},
          files := [[''work'', ''data_scraped'', ''noticiasColombiaCheck.csv''] \<mapsto>
            [Row csv_header,
             Row [Str ''colombiaCheck'', Str ''T1'', Str ''B1'', Str ''u1'', Num 0]]]\<rparr>"
  note falso = veracidad_flag [of "''Falso''" "''FALSO''" "[?a]" "''colombiaCheck''"
      "''data_scraped''" "''noticiasColombiaCheck.csv''" empty_fs ?fs]
  note verdad = veracidad_flag [of "''Verdad''" "''VERDAD''" "[?a]" "''colombiaCheck''"
      "''data_scraped''" "''noticiasColombiaCheck.csv''" empty_fs ?fs]
  from falso verdad have flags: "veracidad_of ''Verdad'' = 1" "veracidad_of ''VERDAD'' = 1"
    "veracidad_of ''Falso'' = 0" "veracidad_of ''FALSO'' = 0"
    by (simp_all add: py_lower_examples)
  from falso example_csv_falso obtain before where
    "file_at ?fs (os_path_join ''data_scraped'' ''noticiasColombiaCheck.csv'') =
       Some (before @ map (\<lambda>a. Row (csv_row ''colombiaCheck'' (veracidad_of ''Falso'') a)) [?a])"
    by blast
  moreover have "file_at ?fs ''data_scraped/noticiasColombiaCheck.csv'' =
    Some [Row csv_header, Row [Str ''colombiaCheck'', Str ''T1'', Str ''B1'', Str ''u1'', Num 0]]"
    by (simp add: fs_eval empty_fs_def)
  ultimately show ?thesis using flags by simp
qed

text \<open>
  C7: when the ledger file does not exist at the moment the first call tests it (line 59,
  after the base directory has been ensured) and the first call returns, a second call
  with the same directory and file name returns too, and the ledger then holds exactly:
  the header row, then the rows of the first batch, then the rows of the second batch,
  each row being \<open>[portal, title, description, url, flag]\<close> of its article in the order of
  the batch; the header row occurs once. (A call that cannot make the directory or open
  the file raises the error of the file system and writes nothing.)
\<close>

theorem csv_header_once:
  assumes "ensure_dir base_dir fs = Inr fs0"
    and "\<not> isfile fs0 (os_path_join base_dir filename)"
    and "save_articles_csv arts1 label1 portal1 base_dir filename fs = Inr fs1"
  shows "\<exists>fs2.
    save_articles_csv arts2 label2 portal2 base_dir filename fs1 = Inr fs2 \<and>
    file_at fs2 (os_path_join base_dir filename) =
      Some (Row csv_header # map (\<lambda>a. Row (csv_row portal1 (veracidad_of label1) a)) arts1 @
              map (\<lambda>a. Row (csv_row portal2 (veracidad_of label2) a)) arts2) \<and>
    count_list (Row csv_header # map (\<lambda>a. Row (csv_row portal1 (veracidad_of label1) a)) arts1 @
              map (\<lambda>a. Row (csv_row portal2 (veracidad_of label2) a)) arts2) (Row csv_header) = 1"
proof -
  let ?path = "os_path_join base_dir filename"
  let ?rows1 = "map (\<lambda>a. Row (csv_row portal1 (veracidad_of label1) a)) arts1"
  let ?rows2 = "map (\<lambda>a. Row (csv_row portal2 (veracidad_of label2) a)) arts2"
  from save_articles_csv_D [OF assms(3)] assms(1) obtain f where
    opened: "open_file fs0 ?path = Inr f"
    and fs1: "fs1 = fs0\<lparr>files := (files fs0)(f \<mapsto>
        (case files fs0 f of None \<Rightarrow> [] | Some pieces \<Rightarrow> pieces) @
        (if isfile fs0 ?path then [] else [Row csv_header]) @ ?rows1)\<rparr>"
    by auto
  from open_file_D [OF opened] have f: "resolve fs0 ?path = Some f" "\<not> is_dir fs0 f"
    by simp_all
  with assms(2) have "files fs0 f = None" by (simp add: isfile_def)
  with fs1 assms(2) have fs1': "fs1 = fs0\<lparr>files := (files fs0)(f \<mapsto> Row csv_header # ?rows1)\<rparr>"
    by simp
  from ensure_dir_D [OF assms(1)] have "path_exists fs0 base_dir" by simp
  then have "path_exists fs1 base_dir" unfolding fs1' by (rule path_exists_write)
  then have ensure: "ensure_dir base_dir fs1 = Inr fs1" by (simp add: ensure_dir_def)
  from f have isfile: "isfile fs1 ?path" unfolding fs1' by (simp add: isfile_def)
  from opened have opened1: "open_file fs1 ?path = Inr f" unfolding fs1' by simp
  have files1: "files fs1 f = Some (Row csv_header # ?rows1)" unfolding fs1' by simp
  let ?fs2 = "fs1\<lparr>files := (files fs1)(f \<mapsto> (Row csv_header # ?rows1) @ ?rows2)\<rparr>"
  have call2: "save_articles_csv arts2 label2 portal2 base_dir filename fs1 = Inr ?fs2"
    by (simp add: save_articles_csv_def Let_def ensure isfile opened1 files1 write_rows_map)
  have "file_at ?fs2 ?path = Some ((Row csv_header # ?rows1) @ ?rows2)"
    using opened1 by (rule file_at_written)
  moreover have "count_list (map (\<lambda>a. Row (csv_row portal veracidad a)) arts) (Row csv_header) = 0"
    for portal veracidad arts
    by (induction arts) (simp_all add: csv_row_not_header)
  then have "count_list (Row csv_header # ?rows1 @ ?rows2) (Row csv_header) = 1"
    by simp
  ultimately show ?thesis using call2 by (intro exI [of _ ?fs2]) simp
qed

theorem csv_header_once_witness:
  "\<exists>fs2.
     save_articles_csv
       [[''title'' \<mapsto> ''T2'', ''description'' \<mapsto> ''B2'', ''url'' \<mapsto> ''u2'']]
       ''verdad'' ''otro'' ''data_scraped'' ''noticiasColombiaCheck.csv''
       (empty_fs\<lparr>dirs := {[''work'', ''data_scraped''], [''work'']},
          files := [[''work'', ''data_scraped'', ''noticiasColombiaCheck.csv''] \<mapsto>
            [Row csv_header,
             Row [Str ''colombiaCheck'', Str ''T1'', Str ''B1'', Str ''u1'', Num 0]]]\<rparr>) =
       Inr fs2 \<and>
     file_at fs2 ''data_scraped/noticiasColombiaCheck.csv'' =
       Some [Row [Str ''fuente'', Str ''titulo'', Str ''descripcion'', Str ''url'',
                  Str ''veracidad''],
             Row [Str ''colombiaCheck'', Str ''T1'', Str ''B1'', Str ''u1'', Num 0],
             Row [Str ''otro'', Str ''T2'', Str ''B2'', Str ''u2'', Num 1]]"
proof -
  have join: "os_path_join ''data_scraped'' ''noticiasColombiaCheck.csv'' =
      ''data_scraped/noticiasColombiaCheck.csv''"
    by (simp add: os_path_join_def startswith_def endswith_def)
  have absent: "\<not> isfile (empty_fs\<lparr>dirs := {[''work'', ''data_scraped''], [''work'']}\<rparr>)
      (os_path_join ''data_scraped'' ''noticiasColombiaCheck.csv'')"
    by (simp add: fs_eval empty_fs_def)
  from csv_header_once [OF example_ensure_dir absent example_csv_falso,
      of "[[''title'' \<mapsto> ''T2'', ''description'' \<mapsto> ''B2'', ''url'' \<mapsto> ''u2'']]"
        "''verdad''" "''otro''"]
  show ?thesis
    by (simp add: join csv_header_def csv_row_def dict_get_def veracidad_of_def
          py_lower_examples)
qed

subsection \<open>C8: the Field Extractor\<close>

text \<open>
  C8, as stated: for every container and every pair of title and body locators,
  \<^verbatim>\<open>parse_article\<close> never raises. As stated this fails for a locator that is not
  well-formed CSS, such as \<open>h3[\<close>: \<^verbatim>\<open>select_one\<close> raises a \<open>SelectorSyntaxError\<close> on it, and
  \<^verbatim>\<open>parse_article\<close> has no handler, so the exception leaves it.
\<close>

theorem parse_article_malformed_counterexample:
  "parse_article \<lparr>select_one = (\<lambda>sel. None), selector_errors = {''h3[''}\<rparr>
     ''h3['' ''p.Chequeo-texto-parrafo'' = Inl SelectorSyntaxError"
  by (simp add: parse_article_def select_one_call_def selector_literals_def)

text \<open>
  C8, amended: for every container and every pair of locators that the CSS engine accepts,
  \<^verbatim>\<open>parse_article\<close> raises nothing and returns a pair of strings: the title is the
  stripped text of the title element when the container has one and the empty string
  when it has none, and the same holds of the description and the body element. When the
  engine refuses one of the two locators, \<^verbatim>\<open>parse_article\<close> raises the engine's
  \<open>SelectorSyntaxError\<close>.
\<close>

theorem parse_article_never_raises:
  "((title_selector \<notin> selector_errors cont \<or> title_selector \<in> selector_literals) \<and>
    (body_selector \<notin> selector_errors cont \<or> body_selector \<in> selector_literals) \<longrightarrow>
    parse_article cont title_selector body_selector =
      Inr (case select_one cont title_selector of None \<Rightarrow> [] | Some el \<Rightarrow> stripped_text el,
           case select_one cont body_selector of None \<Rightarrow> [] | Some el \<Rightarrow> stripped_text el)) \<and>
   (\<not> ((title_selector \<notin> selector_errors cont \<or> title_selector \<in> selector_literals) \<and>
        (body_selector \<notin> selector_errors cont \<or> body_selector \<in> selector_literals)) \<longrightarrow>
    parse_article cont title_selector body_selector = Inl SelectorSyntaxError)"
proof (intro conjI impI)
  assume "(title_selector \<notin> selector_errors cont \<or> title_selector \<in> selector_literals) \<and>
    (body_selector \<notin> selector_errors cont \<or> body_selector \<in> selector_literals)"
  then show "parse_article cont title_selector body_selector =
      Inr (case select_one cont title_selector of None \<Rightarrow> [] | Some el \<Rightarrow> stripped_text el,
           case select_one cont body_selector of None \<Rightarrow> [] | Some el \<Rightarrow> stripped_text el)"
    by (intro parse_article_Inr) simp_all
next
  assume "\<not> ((title_selector \<notin> selector_errors cont \<or> title_selector \<in> selector_literals) \<and>
        (body_selector \<notin> selector_errors cont \<or> body_selector \<in> selector_literals))"
  then show "parse_article cont title_selector body_selector = Inl SelectorSyntaxError"
    by (auto simp: parse_article_def select_one_call_def)
qed

theorem parse_article_never_raises_witness:
  "parse_article (example_cheque ''/chequeos/1'' ''T1'' ''B1'')
     ''h3.Chequeo-texto-titulo'' ''p.no-such-body'' = Inr (''T1'', []) \<and>
   parse_article \<lparr>select_one = (\<lambda>sel. None), selector_errors = {''h3[''}\<rparr>
     ''h3['' ''p.Chequeo-texto-parrafo'' = Inl SelectorSyntaxError"
  using parse_article_never_raises
      [of "''h3.Chequeo-texto-titulo''" "example_cheque ''/chequeos/1'' ''T1'' ''B1''"
          "''p.no-such-body''"]
    parse_article_never_raises
      [of "''h3[''" "\<lparr>select_one = (\<lambda>sel. None), selector_errors = {''h3[''}\<rparr>"
          "''p.Chequeo-texto-parrafo''"]
  by (simp add: example_cheque_def selector_literals_def)

subsection \<open>C9: the file sink\<close>

lemma digit_char_inj: "d < 10 \<Longrightarrow> e < 10 \<Longrightarrow> digit_char d = digit_char e \<Longrightarrow> d = e"
  unfolding digit_char_def
  by (subst (asm) nth_eq_iff_index_eq) simp_all

lemma str_nat_not_Nil: "str_nat n \<noteq> []"
  by (subst str_nat.simps) simp

lemma str_nat_inj: "str_nat n = str_nat m \<Longrightarrow> n = m"
proof (induction n arbitrary: m rule: str_nat.induct)
  case (1 n)
  show ?case
  proof (cases "n < 10")
    case n: True
    show ?thesis
    proof (cases "m < 10")
      case True
      with n "1.prems" show ?thesis
        by (simp add: str_nat.simps [of n] str_nat.simps [of m] digit_char_inj)
    next
      case False
      with n "1.prems" str_nat_not_Nil [of "m div 10"] show ?thesis
        by (simp add: str_nat.simps [of n] str_nat.simps [of m])
    qed
  next
    case n: False
    show ?thesis
    proof (cases "m < 10")
      case True
      with n "1.prems" str_nat_not_Nil [of "n div 10"] show ?thesis
        by (simp add: str_nat.simps [of n] str_nat.simps [of m])
    next
      case False
      with n "1.prems" have "str_nat (n div 10) = str_nat (m div 10)"
        and "digit_char (n mod 10) = digit_char (m mod 10)"
        by (simp_all add: str_nat.simps [of n] str_nat.simps [of m])
      with "1.IH" [OF n] have "n div 10 = m div 10" and "n mod 10 = m mod 10"
        by (simp_all add: digit_char_inj)
      then show ?thesis by (metis div_mult_mod_eq)
    qed
  qed
qed

lemma str_nat_hd: "0 < n \<Longrightarrow> hd (str_nat n) \<in> set ''123456789''"
proof (induction n rule: str_nat.induct)
  case (1 n)
  show ?case
  proof (cases "n < 10")
    case True
    with "1.prems" have "n \<in> {1, 2, 3, 4, 5, 6, 7, 8, 9}" by auto
    then show ?thesis
      by (auto simp: str_nat.simps [of n] digit_char_def)
  next
    case False
    then have "0 < n div 10" by simp
    from "1.IH" [OF False this] False str_nat_not_Nil [of "n div 10"] show ?thesis
      by (simp add: str_nat.simps [of n])
  qed
qed

lemma zfill_str_nat:
  assumes "0 < n"
  shows "zfill (str_nat n) w = replicate (w - length (str_nat n)) CHR ''0'' @ str_nat n"
proof -
  from str_nat_hd [OF assms] have "hd (str_nat n) \<noteq> CHR ''+''" "hd (str_nat n) \<noteq> CHR ''-''"
    by auto
  with str_nat_not_Nil [of n] show ?thesis
    by (cases "str_nat n") (simp_all add: zfill_def)
qed

lemma dropWhile_zfill_str_nat:
  assumes "0 < n"
  shows "dropWhile (\<lambda>c. c = CHR ''0'') (zfill (str_nat n) w) = str_nat n"
proof -
  from str_nat_hd [OF assms] have "hd (str_nat n) \<noteq> CHR ''0''" by auto
  with str_nat_not_Nil [of n]
  have "dropWhile (\<lambda>c. c = CHR ''0'') (str_nat n) = str_nat n"
    by (cases "str_nat n") simp_all
  then show ?thesis
    by (simp add: zfill_str_nat [OF assms] dropWhile_append)
qed

lemma article_filename_inj:
  assumes "1 \<le> i" "1 \<le> j" and eq: "article_filename portal i = article_filename portal j"
  shows "i = j"
proof -
  from assms(1,2) have pos: "0 < nat i" "0 < nat j" by simp_all
  from eq assms(1,2) have "zfill (str_nat (nat i)) 3 = zfill (str_nat (nat j)) 3"
    by (simp add: article_filename_def py_str_def)
  then have "dropWhile (\<lambda>c. c = CHR ''0'') (zfill (str_nat (nat i)) 3) =
      dropWhile (\<lambda>c. c = CHR ''0'') (zfill (str_nat (nat j)) 3)"
    by simp
  then have "str_nat (nat i) = str_nat (nat j)"
    unfolding dropWhile_zfill_str_nat [OF pos(1)] dropWhile_zfill_str_nat [OF pos(2)] .
  then have "nat i = nat j" by (rule str_nat_inj)
  with assms(1,2) show ?thesis by simp
qed

lemma article_filename_padded:
  "article_filename portal (int i + 1) =
     portal @ ''_'' @ replicate (3 - length (str_nat (Suc i))) CHR ''0'' @ str_nat (Suc i) @ ''.txt''"
proof -
  have "py_str (int i + 1) = str_nat (Suc i)"
    by (simp add: py_str_def nat_add_distrib)
  then show ?thesis
    by (simp add: article_filename_def zfill_str_nat)
qed

lemma str_nat_digits: "set (str_nat n) \<subseteq> set ''0123456789''"
proof (induction n rule: str_nat.induct)
  case (1 n)
  have digit: "digit_char d \<in> set ''0123456789''" if "d < 10" for d
    unfolding digit_char_def using that by (intro nth_mem) simp
  show ?case
  proof (cases "n < 10")
    case True
    with digit [of n] show ?thesis by (simp add: str_nat.simps [of n])
  next
    case False
    with "1.IH" digit [of "n mod 10"] show ?thesis by (simp add: str_nat.simps [of n])
  qed
qed

lemma article_number_noslash:
  assumes "1 \<le> idx"
  shows "CHR ''/'' \<notin> set (zfill (py_str idx) 3 @ ''.txt'')"
proof -
  from assms have "py_str idx = str_nat (nat idx)" and "0 < nat idx"
    by (simp_all add: py_str_def)
  then have "set (zfill (py_str idx) 3) \<subseteq> insert CHR ''0'' (set (str_nat (nat idx)))"
    by (auto simp: zfill_str_nat)
  with str_nat_digits [of "nat idx"] show ?thesis by auto
qed

lemma components_noslash: "CHR ''/'' \<notin> set s \<Longrightarrow> components s = [s]"
  by (induction s) auto

lemma components_append_noslash:
  "CHR ''/'' \<notin> set s \<Longrightarrow>
     components (q @ s) = butlast (components q) @ [last (components q) @ s]"
proof (induction q)
  case Nil
  then show ?case by (simp add: components_noslash)
next
  case (Cons c q)
  from Cons.IH [OF Cons.prems]
  have IH: "components (q @ s) = butlast (components q) @ [last (components q) @ s]" .
  obtain x xs where C: "components q = x # xs"
    using components_not_Nil [of q] by (cases "components q") auto
  show ?case
  proof (cases "xs = []")
    case True
    with IH C show ?thesis by simp
  next
    case False
    with IH C show ?thesis by simp
  qed
qed

lemma walk_append:
  "walk fs k (cs @ ds) = (case walk fs k cs of None \<Rightarrow> None | Some k' \<Rightarrow> walk fs k' ds)"
  by (induction fs k cs rule: walk.induct) simp_all

lemma walk_name:
  assumes "c \<noteq> []" "c \<noteq> ''.''" "c \<noteq> ''..''"
  shows "walk fs k (cs @ [c]) =
    (case walk fs k cs of None \<Rightarrow> None
     | Some k' \<Rightarrow> if is_dir fs k' then Some (k' @ [c]) else None)"
  using assms by (simp add: walk_append split: option.splits)

lemma os_path_join_append: "b \<noteq> [] \<Longrightarrow> os_path_join a (b @ x) = os_path_join a b @ x"
  by (cases b) (simp_all add: os_path_join_def startswith_def)

lemma os_path_join_not_Nil: "b \<noteq> [] \<Longrightarrow> os_path_join a b \<noteq> []"
  by (simp add: os_path_join_def)

lemma startswith_append: "q \<noteq> [] \<Longrightarrow> startswith (q @ s) ''/'' = startswith q ''/''"
  by (cases q) (simp_all add: startswith_def)

text \<open>
  The key of the file of position \<open>idx\<close>: the directory that the part of the path before
  the number leads to, and in it the name made of the rest of the portal, the number and
  the extension.
\<close>

lemma resolve_article_path:
  assumes "1 \<le> idx"
  shows "resolve fs (os_path_join save_path (article_filename portal idx)) =
    (case walk fs (start_of fs (os_path_join save_path (portal @ ''_'')))
            (butlast (components (os_path_join save_path (portal @ ''_'')))) of
       None \<Rightarrow> None
     | Some d \<Rightarrow>
         if is_dir fs d
         then Some (d @ [last (components (os_path_join save_path (portal @ ''_''))) @
                         zfill (py_str idx) 3 @ ''.txt''])
         else None)"
proof -
  let ?q = "os_path_join save_path (portal @ ''_'')"
  let ?s = "zfill (py_str idx) 3 @ ''.txt''"
  have path: "os_path_join save_path (article_filename portal idx) = ?q @ ?s"
    using os_path_join_append [of "portal @ ''_''" save_path ?s]
    by (simp add: article_filename_def)
  have q: "?q \<noteq> []" by (rule os_path_join_not_Nil) simp
  have comps: "components (?q @ ?s) = butlast (components ?q) @ [last (components ?q) @ ?s]"
    using article_number_noslash [OF assms] by (rule components_append_noslash)
  have name: "last (components ?q) @ ?s \<noteq> []" "last (components ?q) @ ?s \<noteq> ''.''"
    "last (components ?q) @ ?s \<noteq> ''..''"
    by (auto simp: append_eq_Cons_conv Cons_eq_append_conv)
  have start: "start_of fs (?q @ ?s) = start_of fs ?q"
    by (simp add: start_of_def startswith_append [OF q])
  show ?thesis
    unfolding path resolve_def comps start using q by (simp add: walk_name [OF name])
qed

lemma article_key_inj:
  assumes "1 \<le> i" "1 \<le> j"
    and "resolve fs (os_path_join save_path (article_filename portal i)) = Some k"
    and "resolve fs (os_path_join save_path (article_filename portal j)) = Some k"
  shows "i = j"
proof -
  from assms(3,4) have "zfill (py_str i) 3 @ ''.txt'' = zfill (py_str j) 3 @ ''.txt''"
    unfolding resolve_article_path [OF assms(1)] resolve_article_path [OF assms(2)]
    by (auto split: option.splits if_splits)
  then have "article_filename portal i = article_filename portal j"
    by (simp add: article_filename_def)
  with assms(1,2) show ?thesis by (rule article_filename_inj)
qed

lemma resolve_same_tree:
  assumes "cwd fs' = cwd fs" "dirs fs' = dirs fs"
  shows "resolve fs' path = resolve fs path"
  using assms walk_dirs_cong [of fs' fs] by (simp add: resolve_def start_of_def)

lemma save_articles_loop_D:
  assumes "save_articles_loop save_path portal idx arts fs = Inr fs'" and "1 \<le> idx"
  shows "cwd fs' = cwd fs \<and> dirs fs' = dirs fs \<and> denied fs' = denied fs \<and>
    (\<forall>i < length arts. \<exists>k.
       open_file fs (os_path_join save_path (article_filename portal (idx + int i))) = Inr k \<and>
       files fs' k = Some [Chars (article_text portal (arts ! i))]) \<and>
    (\<forall>k. (\<forall>i < length arts.
             resolve fs (os_path_join save_path (article_filename portal (idx + int i))) \<noteq>
               Some k)
         \<longrightarrow> files fs' k = files fs k)"
  using assms
proof (induction arts arbitrary: idx fs)
  case Nil
  then show ?case by simp
next
  case (Cons a arts)
  let ?path = "\<lambda>n. os_path_join save_path (article_filename portal n)"
  from Cons.prems(1) obtain f where opened: "open_file fs (?path idx) = Inr f"
    and rest: "save_articles_loop save_path portal (idx + 1) arts
        (fs\<lparr>files := (files fs)(f \<mapsto> [Chars (article_text portal a)])\<rparr>) = Inr fs'"
    by (auto simp: Let_def split: sum.splits)
  let ?fs = "fs\<lparr>files := (files fs)(f \<mapsto> [Chars (article_text portal a)])\<rparr>"
  from Cons.prems(2) have "1 \<le> idx + 1" by simp
  from Cons.IH [OF rest this]
  have same: "cwd fs' = cwd fs" "dirs fs' = dirs fs" "denied fs' = denied fs"
    and written: "\<And>i. i < length arts \<Longrightarrow> \<exists>k.
       open_file fs (?path (idx + 1 + int i)) = Inr k \<and>
       files fs' k = Some [Chars (article_text portal (arts ! i))]"
    and others: "\<And>k. (\<forall>i < length arts. resolve fs (?path (idx + 1 + int i)) \<noteq> Some k)
         \<Longrightarrow> files fs' k = files ?fs k"
    by simp_all
  from open_file_D [OF opened] have f: "resolve fs (?path idx) = Some f" by simp
  have "resolve fs (?path (idx + 1 + int i)) \<noteq> Some f" for i
  proof
    assume "resolve fs (?path (idx + 1 + int i)) = Some f"
    with Cons.prems(2) f have "idx + 1 + int i = idx"
      by (intro article_key_inj [of _ _ fs save_path portal f]) simp_all
    then show False by simp
  qed
  with others [of f] have first: "files fs' f = Some [Chars (article_text portal a)]"
    by simp
  have "\<exists>k. open_file fs (?path (idx + int i)) = Inr k \<and>
       files fs' k = Some [Chars (article_text portal ((a # arts) ! i))]"
    if "i < length (a # arts)" for i
  proof (cases i)
    case 0
    with opened first show ?thesis by simp
  next
    case (Suc j)
    have eq: "idx + int (Suc j) = idx + 1 + int j" by simp
    from that Suc have "j < length arts" by simp
    from written [OF this] show ?thesis unfolding Suc eq by simp
  qed
  moreover have "files fs' k = files fs k"
    if k: "\<forall>i < length (a # arts). resolve fs (?path (idx + int i)) \<noteq> Some k" for k
  proof -
    from k [rule_format, of 0] f have "k \<noteq> f" by auto
    moreover have "\<forall>i < length arts. resolve fs (?path (idx + 1 + int i)) \<noteq> Some k"
    proof (intro allI impI)
      fix i assume "i < length arts"
      then have "Suc i < length (a # arts)" by simp
      from k [rule_format, OF this]
      have "resolve fs (?path (idx + int (Suc i))) \<noteq> Some k" .
      moreover have "idx + int (Suc i) = idx + 1 + int i" by simp
      ultimately show "resolve fs (?path (idx + 1 + int i)) \<noteq> Some k" by (simp add: add.assoc)
    qed
    ultimately show ?thesis using others [of k] by simp
  qed
  ultimately show ?case using same by (intro conjI allI impI)
qed

lemma save_articles_loop_returns:
  assumes "\<forall>i < length arts. \<exists>k.
      open_file fs (os_path_join save_path (article_filename portal (idx + int i))) = Inr k"
  shows "\<exists>fs'. save_articles_loop save_path portal idx arts fs = Inr fs'"
  using assms
proof (induction arts arbitrary: idx fs)
  case Nil
  then show ?case by simp
next
  case (Cons a arts)
  let ?path = "\<lambda>n. os_path_join save_path (article_filename portal n)"
  from Cons.prems [rule_format, of 0] obtain f where opened: "open_file fs (?path idx) = Inr f"
    by auto
  let ?fs = "fs\<lparr>files := (files fs)(f \<mapsto> [Chars (article_text portal a)])\<rparr>"
  have "\<forall>i < length arts. \<exists>k. open_file ?fs (?path (idx + 1 + int i)) = Inr k"
  proof (intro allI impI)
    fix i assume "i < length arts"
    then have "Suc i < length (a # arts)" by simp
    from Cons.prems [rule_format, OF this]
    obtain k where "open_file fs (?path (idx + int (Suc i))) = Inr k" by blast
    moreover have "idx + int (Suc i) = idx + 1 + int i" by simp
    ultimately show "\<exists>k. open_file ?fs (?path (idx + 1 + int i)) = Inr k" by (simp add: add.assoc)
  qed
  from Cons.IH [OF this] opened show ?case by (simp add: Let_def)
qed

lemma save_articles_tree:
  assumes "save_articles arts label portal base_dir fs = Inr fs'"
    and "ensure_dir (os_path_join base_dir label) fs = Inr fs0"
  shows "cwd fs' = cwd fs0 \<and> dirs fs' = dirs fs0 \<and> denied fs' = denied fs0"
proof -
  from assms have "save_articles_loop (os_path_join base_dir label) portal 1 arts fs0 = Inr fs'"
    by (simp add: save_articles_def Let_def)
  from save_articles_loop_D [OF this] show ?thesis by simp
qed

lemma example_ensure_save_path:
  "ensure_dir ''data_scraped/falso'' empty_fs =
     Inr (empty_fs\<lparr>dirs :=
       {[''work'', ''data_scraped'', ''falso''], [''work'', ''data_scraped''], [''work'']}\<rparr>)"
  by (simp add: fs_eval empty_fs_def)

lemma example_article_paths:
  "os_path_join (os_path_join ''data_scraped'' ''falso'') (article_filename ''colombiaCheck'' 1) =
     ''data_scraped/falso/colombiaCheck_001.txt''"
  "os_path_join (os_path_join ''data_scraped'' ''falso'') (article_filename ''colombiaCheck'' 2) =
     ''data_scraped/falso/colombiaCheck_002.txt''"
  "os_path_join (os_path_join ''data_scraped'' ''falso'') (article_filename ''colombiaCheck'' 3) =
     ''data_scraped/falso/colombiaCheck_003.txt''"
  by (simp_all add: os_path_join_def startswith_def endswith_def article_filename_def
        py_str_def str_nat.simps digit_char_def zfill_def numeral_2_eq_2)

lemma example_save_articles:
  "save_articles
      [[''title'' \<mapsto> ''T1'', ''description'' \<mapsto> ''B1'', ''url'' \<mapsto> ''u1''],
       [''title'' \<mapsto> ''T2'', ''description'' \<mapsto> ''B2'', ''url'' \<mapsto> ''u2''],
       [''title'' \<mapsto> ''T3'', ''description'' \<mapsto> ''B3'', ''url'' \<mapsto> ''u3'']]
      ''falso'' ''colombiaCheck'' ''data_scraped''
      (empty_fs\<lparr>files :=
         [[''work'', ''data_scraped'', ''falso'', ''colombiaCheck_002.txt''] \<mapsto> [Chars ''old''],
          [''work'', ''notes.txt''] \<mapsto> [Chars ''kept'']]\<rparr>) =
   Inr (empty_fs\<lparr>dirs :=
          {[''work'', ''data_scraped'', ''falso''], [''work'', ''data_scraped''], [''work'']},
        files :=
         [[''work'', ''data_scraped'', ''falso'', ''colombiaCheck_002.txt''] \<mapsto> [Chars ''old''],
          [''work'', ''notes.txt''] \<mapsto> [Chars ''kept''],
          [''work'', ''data_scraped'', ''falso'', ''colombiaCheck_001.txt''] \<mapsto>
            [Chars (article_text ''colombiaCheck''
               [''title'' \<mapsto> ''T1'', ''description'' \<mapsto> ''B1'', ''url'' \<mapsto> ''u1''])],
          [''work'', ''data_scraped'', ''falso'', ''colombiaCheck_002.txt''] \<mapsto>
            [Chars (article_text ''colombiaCheck''
               [''title'' \<mapsto> ''T2'', ''description'' \<mapsto> ''B2'', ''url'' \<mapsto> ''u2''])],
          [''work'', ''data_scraped'', ''falso'', ''colombiaCheck_003.txt''] \<mapsto>
            [Chars (article_text ''colombiaCheck''
               [''title'' \<mapsto> ''T3'', ''description'' \<mapsto> ''B3'', ''url'' \<mapsto> ''u3''])]]\<rparr>)"
  by (simp add: save_articles_def fs_eval empty_fs_def article_filename_def
        py_str_def str_nat.simps digit_char_def zfill_def numeral_2_eq_2)

lemma example_save_articles_portal_slash:
  "save_articles [a] ''falso'' ''bbc/mundo'' ''data_scraped'' empty_fs = Inl OSError"
  by (simp add: save_articles_def fs_eval empty_fs_def article_filename_def
        py_str_def str_nat.simps digit_char_def zfill_def numeral_2_eq_2)

lemma example_save_articles_empty_path:
  "save_articles arts [] portal [] fs = Inl OSError"
  by (simp add: save_articles_def fs_eval)

text \<open>
  C9: when \<^verbatim>\<open>save_articles\<close> returns, then for the article at each 1-based position of
  the list, in the order of the list, the path of the name \<open>portal_NNN.txt\<close> in the
  directory of the label names a regular file that holds exactly that article's four
  written pieces (source line, URL line, title line and a blank line, description line),
  whatever was there before; \<open>NNN\<close> is the position in decimal, padded with zeros on the
  left to three digits, starting at \<open>001\<close>; the files of different positions are different
  files, so there is one file per article; and every other file keeps what it had. The
  sink returns whenever the directory of the label can be ensured and each of these paths
  can be opened for writing. (When the directory cannot be made or a path cannot be
  opened, as with a portal that contains a slash and names a directory that is not there,
  the sink raises the error of the file system.)
\<close>

theorem save_articles_files:
  "(save_articles arts label portal base_dir fs = Inr fs' \<longrightarrow>
      (\<forall>i < length arts.
         file_at fs' (os_path_join (os_path_join base_dir label)
                        (article_filename portal (int i + 1))) =
         Some [Chars (article_text portal (arts ! i))]) \<and>
      (\<forall>i < length arts. \<forall>j < length arts.
         resolve fs' (os_path_join (os_path_join base_dir label)
                        (article_filename portal (int i + 1))) =
         resolve fs' (os_path_join (os_path_join base_dir label)
                        (article_filename portal (int j + 1))) \<longrightarrow> i = j) \<and>
      (\<forall>k. (\<forall>i < length arts.
               resolve fs' (os_path_join (os_path_join base_dir label)
                              (article_filename portal (int i + 1))) \<noteq> Some k)
           \<longrightarrow> files fs' k = files fs k)) \<and>
   (ensure_dir (os_path_join base_dir label) fs = Inr fs0 \<and>
    (\<forall>i < length arts. \<exists>k.
       open_file fs0 (os_path_join (os_path_join base_dir label)
                        (article_filename portal (int i + 1))) = Inr k) \<longrightarrow>
      (\<exists>fs''. save_articles arts label portal base_dir fs = Inr fs'')) \<and>
   (\<forall>i. article_filename portal (int i + 1) =
      portal @ ''_'' @ replicate (3 - length (str_nat (Suc i))) CHR ''0'' @ str_nat (Suc i) @
      ''.txt'')"
  (is "(?run \<longrightarrow> ?R) \<and> (?E \<longrightarrow> ?S) \<and> ?P")
proof -
  let ?save_path = "os_path_join base_dir label"
  let ?path = "\<lambda>i. os_path_join ?save_path (article_filename portal (int i + 1))"
  have shift: "1 + int i = int i + 1" for i by simp
  have returned:
    "(\<forall>i < length arts. file_at fs' (?path i) = Some [Chars (article_text portal (arts ! i))]) \<and>
     (\<forall>i < length arts. \<forall>j < length arts.
        resolve fs' (?path i) = resolve fs' (?path j) \<longrightarrow> i = j) \<and>
     (\<forall>k. (\<forall>i < length arts. resolve fs' (?path i) \<noteq> Some k) \<longrightarrow> files fs' k = files fs k)"
    if run: "save_articles arts label portal base_dir fs = Inr fs'"
  proof -
    from run obtain fs1 where ensured: "ensure_dir ?save_path fs = Inr fs1"
      and loop: "save_articles_loop ?save_path portal 1 arts fs1 = Inr fs'"
      by (auto simp: save_articles_def Let_def split: sum.splits)
    from ensure_dir_D [OF ensured] have files1: "files fs1 = files fs" by simp
    from save_articles_loop_D [OF loop]
    have same: "cwd fs' = cwd fs1" "dirs fs' = dirs fs1"
      and written: "\<And>i. i < length arts \<Longrightarrow> \<exists>k.
         open_file fs1 (?path i) = Inr k \<and>
         files fs' k = Some [Chars (article_text portal (arts ! i))]"
      and others: "\<And>k. (\<forall>i < length arts. resolve fs1 (?path i) \<noteq> Some k)
         \<Longrightarrow> files fs' k = files fs1 k"
      unfolding shift by simp_all
    have resolve: "resolve fs' p = resolve fs1 p" for p
      using same by (rule resolve_same_tree)
    have is_dir: "is_dir fs' k = is_dir fs1 k" for k
      using same by (simp add: is_dir_def)
    have a: "file_at fs' (?path i) = Some [Chars (article_text portal (arts ! i))]"
      if "i < length arts" for i
    proof -
      from written [OF that] obtain k where k: "open_file fs1 (?path i) = Inr k"
        and content: "files fs' k = Some [Chars (article_text portal (arts ! i))]"
        by blast
      from open_file_D [OF k] content show ?thesis
        by (simp add: file_at_def resolve is_dir)
    qed
    have b: "i = j"
      if "i < length arts" "j < length arts" "resolve fs' (?path i) = resolve fs' (?path j)"
      for i j
    proof -
      from written [OF that(1)] obtain k where "open_file fs1 (?path i) = Inr k" by blast
      from open_file_D [OF this] have "resolve fs1 (?path i) = Some k" by simp
      moreover from this that(3) have "resolve fs1 (?path j) = Some k" by (simp add: resolve)
      ultimately have "int i + 1 = int j + 1"
        by (intro article_key_inj [of _ _ fs1 ?save_path portal k]) simp_all
      then show ?thesis by simp
    qed
    have c: "files fs' k = files fs k"
      if "\<forall>i < length arts. resolve fs' (?path i) \<noteq> Some k" for k
      using others [of k] that by (simp add: resolve files1)
    from a b c show ?thesis by (intro conjI allI impI)
  qed
  have returns: "\<exists>fs''. save_articles arts label portal base_dir fs = Inr fs''"
    if "ensure_dir ?save_path fs = Inr fs0"
      and "\<forall>i < length arts. \<exists>k. open_file fs0 (?path i) = Inr k"
  proof -
    from that(2) have "\<forall>i < length arts. \<exists>k.
        open_file fs0 (os_path_join ?save_path (article_filename portal (1 + int i))) = Inr k"
      unfolding shift .
    from save_articles_loop_returns [OF this] that(1) show ?thesis
      by (simp add: save_articles_def Let_def)
  qed
  have padded: "\<forall>i. article_filename portal (int i + 1) =
      portal @ ''_'' @ replicate (3 - length (str_nat (Suc i))) CHR ''0'' @ str_nat (Suc i) @
      ''.txt''"
    using article_filename_padded by (intro allI)
  have 1: "?run \<longrightarrow> ?R"
  proof (rule impI)
    assume ?run
    then show ?R by (rule returned)
  qed
  have 2: "?E \<longrightarrow> ?S"
  proof (rule impI)
    assume e: ?E
    from e [THEN conjunct1] e [THEN conjunct2] show ?S by (rule returns)
  qed
  from 1 2 padded show ?thesis by (intro conjI)
qed

theorem save_articles_files_witness:
  "\<exists>fs'.
     save_articles
       [[''title'' \<mapsto> ''T1'', ''description'' \<mapsto> ''B1'', ''url'' \<mapsto> ''u1''],
        [''title'' \<mapsto> ''T2'', ''description'' \<mapsto> ''B2'', ''url'' \<mapsto> ''u2''],
        [''title'' \<mapsto> ''T3'', ''description'' \<mapsto> ''B3'', ''url'' \<mapsto> ''u3'']]
       ''falso'' ''colombiaCheck'' ''data_scraped''
       (empty_fs\<lparr>files :=
          [[''work'', ''data_scraped'', ''falso'', ''colombiaCheck_002.txt''] \<mapsto> [Chars ''old''],
           [''work'', ''notes.txt''] \<mapsto> [Chars ''kept'']]\<rparr>) = Inr fs' \<and>
     file_at fs' ''data_scraped/falso/colombiaCheck_001.txt'' =
       Some [Chars (''Fuente: colombiaCheck'' @ [CHR 0x0A] @ ''URL: u1'' @ [CHR 0x0A] @
         ''T'' @ [CHR 0xC3, CHR 0xAD] @ ''tulo: T1'' @ [CHR 0x0A, CHR 0x0A] @
         ''Descripci'' @ [CHR 0xC3, CHR 0xB3] @ ''n: B1'' @ [CHR 0x0A])] \<and>
     file_at fs' ''data_scraped/falso/colombiaCheck_002.txt'' =
       Some [Chars (''Fuente: colombiaCheck'' @ [CHR 0x0A] @ ''URL: u2'' @ [CHR 0x0A] @
         ''T'' @ [CHR 0xC3, CHR 0xAD] @ ''tulo: T2'' @ [CHR 0x0A, CHR 0x0A] @
         ''Descripci'' @ [CHR 0xC3, CHR 0xB3] @ ''n: B2'' @ [CHR 0x0A])] \<and>
     file_at fs' ''data_scraped/falso/colombiaCheck_003.txt'' =
       Some [Chars (''Fuente: colombiaCheck'' @ [CHR 0x0A] @ ''URL: u3'' @ [CHR 0x0A] @
         ''T'' @ [CHR 0xC3, CHR 0xAD] @ ''tulo: T3'' @ [CHR 0x0A, CHR 0x0A] @
         ''Descripci'' @ [CHR 0xC3, CHR 0xB3] @ ''n: B3'' @ [CHR 0x0A])] \<and>
     files fs' [''work'', ''notes.txt''] = Some [Chars ''kept''] \<and>
     files fs' [''work'', ''data_scraped'', ''falso'', ''colombiaCheck_004.txt''] = None"
proof -
  let ?arts = "[[''title'' \<mapsto> ''T1'', ''description'' \<mapsto> ''B1'', ''url'' \<mapsto> ''u1''],
       [''title'' \<mapsto> ''T2'', ''description'' \<mapsto> ''B2'', ''url'' \<mapsto> ''u2''],
       [''title'' \<mapsto> ''T3'', ''description'' \<mapsto> ''B3'', ''url'' \<mapsto> ''u3'']]"
  let ?fs = "empty_fs\<lparr>files :=
          [[''work'', ''data_scraped'', ''falso'', ''colombiaCheck_002.txt''] \<mapsto> [Chars ''old''],
           [''work'', ''notes.txt''] \<mapsto> [Chars ''kept'']]\<rparr>"
  let ?path = "\<lambda>i. os_path_join (os_path_join ''data_scraped'' ''falso'')
      (article_filename ''colombiaCheck'' (int i + 1))"
  let ?made = "?fs\<lparr>dirs :=
      {[''work'', ''data_scraped'', ''falso''], [''work'', ''data_scraped''], [''work'']}\<rparr>"
  have paths:
    "?path 0 = ''data_scraped/falso/colombiaCheck_001.txt''"
    "?path 1 = ''data_scraped/falso/colombiaCheck_002.txt''"
    "?path 2 = ''data_scraped/falso/colombiaCheck_003.txt''"
    using example_article_paths by simp_all
  have ensured: "ensure_dir (os_path_join ''data_scraped'' ''falso'') ?fs = Inr ?made"
    by (simp add: fs_eval empty_fs_def)
  have opened: "\<forall>i < length ?arts. \<exists>k. open_file ?made (?path i) = Inr k"
  proof (intro allI impI)
    fix i assume "i < length ?arts"
    then have "i = 0 \<or> i = 1 \<or> i = 2" by auto
    then show "\<exists>k. open_file ?made (?path i) = Inr k"
      using paths by (auto simp: fs_eval empty_fs_def)
  qed
  have "\<exists>fs'. save_articles ?arts ''falso'' ''colombiaCheck'' ''data_scraped'' ?fs = Inr fs'"
    using save_articles_files
      [of ?arts "''falso''" "''colombiaCheck''" "''data_scraped''" ?fs _ ?made,
       THEN conjunct2, THEN conjunct1] ensured opened
    by (elim impE) (intro conjI)
  then obtain fs' where
    run: "save_articles ?arts ''falso'' ''colombiaCheck'' ''data_scraped'' ?fs = Inr fs'" ..
  from save_articles_tree [OF run ensured] have tree: "cwd fs' = [''work'']" "dirs fs' =
      {[''work'', ''data_scraped'', ''falso''], [''work'', ''data_scraped''], [''work'']}"
    by (simp_all add: empty_fs_def)
  note returned = save_articles_files
    [of ?arts "''falso''" "''colombiaCheck''" "''data_scraped''" ?fs fs',
     THEN conjunct1, THEN mp, OF run]
  from returned have written: "\<forall>i < length ?arts.
      file_at fs' (?path i) = Some [Chars (article_text ''colombiaCheck'' (?arts ! i))]"
    by (rule conjunct1)
  from returned [THEN conjunct2, THEN conjunct2]
  have others: "\<forall>k. (\<forall>i < length ?arts. resolve fs' (?path i) \<noteq> Some k)
        \<longrightarrow> files fs' k = files ?fs k" .
  have keys:
    "resolve fs' (?path 0) = Some [''work'', ''data_scraped'', ''falso'', ''colombiaCheck_001.txt'']"
    "resolve fs' (?path 1) = Some [''work'', ''data_scraped'', ''falso'', ''colombiaCheck_002.txt'']"
    "resolve fs' (?path 2) = Some [''work'', ''data_scraped'', ''falso'', ''colombiaCheck_003.txt'']"
    unfolding paths by (simp_all add: resolve_def start_of_def startswith_def is_dir_def tree)
  have untouched: "\<forall>i < length ?arts. resolve fs' (?path i) \<noteq> Some k"
    if "k = [''work'', ''notes.txt''] \<or>
        k = [''work'', ''data_scraped'', ''falso'', ''colombiaCheck_004.txt'']" for k
  proof (intro allI impI)
    fix i assume "i < length ?arts"
    then have "i = 0 \<or> i = 1 \<or> i = 2" by auto
    then show "resolve fs' (?path i) \<noteq> Some k"
      using keys that by auto
  qed
  from others untouched have "files fs' [''work'', ''notes.txt''] = files ?fs [''work'', ''notes.txt'']"
    and "files fs' [''work'', ''data_scraped'', ''falso'', ''colombiaCheck_004.txt''] =
      files ?fs [''work'', ''data_scraped'', ''falso'', ''colombiaCheck_004.txt'']"
    by simp_all
  then have kept: "files fs' [''work'', ''notes.txt''] = Some [Chars ''kept'']"
    "files fs' [''work'', ''data_scraped'', ''falso'', ''colombiaCheck_004.txt''] = None"
    by (simp_all add: empty_fs_def)
  from written [rule_format, of 0] written [rule_format, of 1] written [rule_format, of 2]
  have "file_at fs' ''data_scraped/falso/colombiaCheck_001.txt'' =
       Some [Chars (''Fuente: colombiaCheck'' @ [CHR 0x0A] @ ''URL: u1'' @ [CHR 0x0A] @
         ''T'' @ [CHR 0xC3, CHR 0xAD] @ ''tulo: T1'' @ [CHR 0x0A, CHR 0x0A] @
         ''Descripci'' @ [CHR 0xC3, CHR 0xB3] @ ''n: B1'' @ [CHR 0x0A])]"
    and "file_at fs' ''data_scraped/falso/colombiaCheck_002.txt'' =
       Some [Chars (''Fuente: colombiaCheck'' @ [CHR 0x0A] @ ''URL: u2'' @ [CHR 0x0A] @
         ''T'' @ [CHR 0xC3, CHR 0xAD] @ ''tulo: T2'' @ [CHR 0x0A, CHR 0x0A] @
         ''Descripci'' @ [CHR 0xC3, CHR 0xB3] @ ''n: B2'' @ [CHR 0x0A])]"
    and "file_at fs' ''data_scraped/falso/colombiaCheck_003.txt'' =
       Some [Chars (''Fuente: colombiaCheck'' @ [CHR 0x0A] @ ''URL: u3'' @ [CHR 0x0A] @
         ''T'' @ [CHR 0xC3, CHR 0xAD] @ ''tulo: T3'' @ [CHR 0x0A, CHR 0x0A] @
         ''Descripci'' @ [CHR 0xC3, CHR 0xB3] @ ''n: B3'' @ [CHR 0x0A])]"
    unfolding paths by (simp_all add: article_text_def newline_def dict_get_def)
  with run kept show ?thesis by (intro exI [of _ fs'] conjI)
qed

subsection \<open>C10: termination of the Collector\<close>

lemma scrape_page_Continue_page:
  "scrape_page net limit sleep_time st = Inr (Continue st') \<Longrightarrow> page st' = page st + 1"
  by (blast dest: scrape_page_Continue_D)

lemma scrape_loop_bounded_enough:
  "nat (max_pages + 1 - page st) \<le> n \<Longrightarrow>
   scrape_loop_bounded n net limit max_pages sleep_time st =
     Some (scrape_loop net limit max_pages sleep_time st)"
proof (induction n arbitrary: st)
  case 0
  then have "\<not> page st \<le> max_pages" by simp
  then show ?case by (simp add: scrape_loop.simps)
next
  case (Suc n)
  show ?case
  proof (cases "int (length (articles st)) < limit \<and> page st \<le> max_pages")
    case False
    then show ?thesis by (auto simp: scrape_loop.simps [of _ _ _ _ st])
  next
    case guard: True
    show ?thesis
    proof (cases "scrape_page net limit sleep_time st")
      case (Inl e)
      with guard show ?thesis by (simp add: scrape_loop.simps [of _ _ _ _ st])
    next
      case (Inr fl)
      show ?thesis
      proof (cases fl)
        case (Break st')
        with Inr guard show ?thesis by (simp add: scrape_loop.simps [of _ _ _ _ st])
      next
        case (Continue st')
        with Inr have "page st' = page st + 1" by (simp add: scrape_page_Continue_page)
        with Suc.prems have "nat (max_pages + 1 - page st') \<le> n" by simp
        from Suc.IH [OF this] Inr Continue guard show ?thesis
          by (simp add: scrape_loop.simps [of _ _ _ _ st])
      qed
    qed
  qed
qed

text \<open>
  C10: the Collector terminates for every \<open>limit\<close>, \<open>max_pages\<close> and network. The loop is
  a total function (its termination is proved with the measure \<open>max_pages + 1 - page\<close>
  where it is defined); every pass through its body that does not break adds one to the
  page counter; and the loop cut off after \<open>max_pages\<close> passes (none when \<open>max_pages\<close> is
  negative) already returns the result of the loop, so the body runs at most \<open>max_pages\<close>
  times. The inner loop is a structural recursion over the list of containers of one page.
\<close>

theorem scrape_terminates:
  "scrape_loop_bounded (nat max_pages) net limit max_pages sleep_time
      \<lparr>articles = [], seen_urls = {}, page = 1, trace = []\<rparr> =
     Some (scrape_loop net limit max_pages sleep_time
      \<lparr>articles = [], seen_urls = {}, page = 1, trace = []\<rparr>) \<and>
   (\<forall>st st'. scrape_page net limit sleep_time st = Inr (Continue st')
      \<longrightarrow> page st' = page st + 1)"
  by (simp add: scrape_loop_bounded_enough scrape_page_Continue_page)

lemma example_page_Continue:
  "scrape_page (example_net [example_cheque ''/chequeos/1'' ''T1'' ''B1'']) 75 0
      \<lparr>articles = [], seen_urls = {}, page = 1, trace = []\<rparr> =
     Inr (Continue
      \<lparr>articles = [[''title'' \<mapsto> ''T1'', ''description'' \<mapsto> ''B1'',
                    ''url'' \<mapsto> ''https://colombiacheck.com/chequeos/1'']],
       seen_urls = {''https://colombiacheck.com/chequeos/1''}, page = 2,
       trace = [Get ''https://colombiacheck.com/chequeos?page=1'', Sleep 0]\<rparr>)"
  by (simp add: run_simps)

theorem scrape_terminates_witness:
  "scrape_loop_bounded (nat 1) (example_net [example_cheque ''/chequeos/1'' ''T1'' ''B1'']) 75 1 0
      \<lparr>articles = [], seen_urls = {}, page = 1, trace = []\<rparr> =
     Some (Inr
      \<lparr>articles = [[''title'' \<mapsto> ''T1'', ''description'' \<mapsto> ''B1'',
                    ''url'' \<mapsto> ''https://colombiacheck.com/chequeos/1'']],
       seen_urls = {''https://colombiacheck.com/chequeos/1''}, page = 2,
       trace = [Get ''https://colombiacheck.com/chequeos?page=1'', Sleep 0]\<rparr>) \<and>
   page \<lparr>articles = [[''title'' \<mapsto> ''T1'', ''description'' \<mapsto> ''B1'',
                    ''url'' \<mapsto> ''https://colombiacheck.com/chequeos/1'']],
       seen_urls = {''https://colombiacheck.com/chequeos/1''}, page = 2,
       trace = [Get ''https://colombiacheck.com/chequeos?page=1'', Sleep 0]\<rparr> =
   page \<lparr>articles = [], seen_urls = {}, page = 1, trace = []\<rparr> + 1"
proof -
  let ?net = "example_net [example_cheque ''/chequeos/1'' ''T1'' ''B1'']"
  let ?init = "\<lparr>articles = [], seen_urls = {}, page = 1, trace = []\<rparr>"
  let ?st = "\<lparr>articles = [[''title'' \<mapsto> ''T1'', ''description'' \<mapsto> ''B1'',
                    ''url'' \<mapsto> ''https://colombiacheck.com/chequeos/1'']],
       seen_urls = {''https://colombiacheck.com/chequeos/1''}, page = 2,
       trace = [Get ''https://colombiacheck.com/chequeos?page=1'', Sleep 0]\<rparr>"
  have run: "scrape_loop ?net 75 1 0 ?init = Inr ?st"
    by (simp add: scrape_loop.simps [of _ _ _ _ ?init] example_page_Continue)
       (simp add: scrape_loop.simps)
  from scrape_terminates [of 1 ?net 75 0]
  have "scrape_loop_bounded (nat 1) ?net 75 1 0 ?init = Some (scrape_loop ?net 75 1 0 ?init)"
    and "page ?st = page ?init + 1"
    using example_page_Continue by blast+
  with run show ?thesis by simp
qed

end
